theory Spec2Isabelle
  imports Main "HOL-Library.Word"
begin

section \<open>Memory: blocks, pointers, malloc, memcpy, free\<close>

text \<open>
  The engines of \<^verbatim>\<open>alltoall_thread_local.cc\<close> and \<^verbatim>\<open>alltoallv_thread_local.cc\<close>
  work on raw buffers shared by all ranks of one process. Memory is a store of blocks
  (one block per allocation), a pointer is a block with a byte offset, and every access
  outside a live block is undefined behaviour of the C program, which the model reports
  as a fault of the calling rank.
\<close>

type_synonym byte = "8 word"

datatype ptr = Null | Ptr nat int

record heap =
  blocks :: "nat \<Rightarrow> byte list option"
  fresh :: nat
  avail :: nat

fun ptr_add :: "ptr \<Rightarrow> int \<Rightarrow> ptr" where
  "ptr_add Null d = Null"
| "ptr_add (Ptr b off) d = Ptr b (off + d)"

definition segment :: "'a list \<Rightarrow> nat \<Rightarrow> nat \<Rightarrow> 'a list" where
  "segment xs off n = take n (drop off xs)"

definition overwrite :: "'a list \<Rightarrow> nat \<Rightarrow> 'a list \<Rightarrow> 'a list" where
  "overwrite xs off ys = take off xs @ ys @ drop (off + length ys) xs"

text \<open>\<^verbatim>\<open>malloc\<close>: a fresh block of \<open>n\<close> bytes, or the null pointer when the allocator
  cannot grant \<open>n\<close> bytes. Block identifiers are never reused.\<close>

definition malloc :: "heap \<Rightarrow> nat \<Rightarrow> ptr \<times> heap" where
  "malloc h n =
     (if n \<le> avail h
      then (Ptr (fresh h) 0,
            h\<lparr>blocks := (blocks h)(fresh h \<mapsto> replicate n 0),
              fresh := Suc (fresh h), avail := avail h - n\<rparr>)
      else (Null, h))"

text \<open>\<^verbatim>\<open>memcpy(dst, src, n)\<close>: both ranges must lie inside live blocks and must not
  overlap; anything else is undefined behaviour (\<open>None\<close>).\<close>

definition memcpy :: "heap \<Rightarrow> ptr \<Rightarrow> ptr \<Rightarrow> nat \<Rightarrow> heap option" where
  "memcpy h dst src n =
     (case dst of Null \<Rightarrow> None | Ptr bd od \<Rightarrow>
      (case src of Null \<Rightarrow> None | Ptr bs os \<Rightarrow>
       (case blocks h bd of None \<Rightarrow> None | Some d \<Rightarrow>
        (case blocks h bs of None \<Rightarrow> None | Some s \<Rightarrow>
          if 0 \<le> od \<and> 0 \<le> os \<and> nat od + n \<le> length d \<and> nat os + n \<le> length s
             \<and> (bd = bs \<longrightarrow> nat od + n \<le> nat os \<or> nat os + n \<le> nat od)
          then Some (h\<lparr>blocks := (blocks h)(bd \<mapsto> overwrite d (nat od) (segment s (nat os) n))\<rparr>)
          else None))))"

text \<open>\<^verbatim>\<open>free\<close>: the null pointer is ignored; any other pointer must be the start of a
  live block.\<close>

definition free :: "heap \<Rightarrow> ptr \<Rightarrow> heap option" where
  "free h p =
     (case p of Null \<Rightarrow> Some h | Ptr b off \<Rightarrow>
      (case blocks h b of None \<Rightarrow> None | Some d \<Rightarrow>
        if off = 0 then Some (h\<lparr>blocks := (blocks h)(b := None), avail := avail h + length d\<rparr>)
        else None))"

section \<open>C integers\<close>

text \<open>
  \<^verbatim>\<open>int\<close> is 32 bits and \<^verbatim>\<open>ptrdiff_t\<close> 64 bits, both signed: an overflow is undefined
  behaviour (\<open>None\<close>). A length reaches \<^verbatim>\<open>malloc\<close> and \<^verbatim>\<open>memcpy\<close> converted to the
  unsigned 64-bit \<^verbatim>\<open>size_t\<close>, which wraps. \<^verbatim>\<open>%\<close> truncates towards zero.
\<close>

definition int_ok :: "int \<Rightarrow> bool" where
  "int_ok x \<longleftrightarrow> - (2 ^ 31) \<le> x \<and> x < 2 ^ 31"

definition ptrdiff_ok :: "int \<Rightarrow> bool" where
  "ptrdiff_ok x \<longleftrightarrow> - (2 ^ 63) \<le> x \<and> x < 2 ^ 63"

definition int_add :: "int \<Rightarrow> int \<Rightarrow> int option" where
  "int_add a b = (if int_ok (a + b) then Some (a + b) else None)"

definition int_sub :: "int \<Rightarrow> int \<Rightarrow> int option" where
  "int_sub a b = (if int_ok (a - b) then Some (a - b) else None)"

definition int_mul :: "int \<Rightarrow> int \<Rightarrow> int option" where
  "int_mul a b = (if int_ok (a * b) then Some (a * b) else None)"

definition ptrdiff_mul :: "int \<Rightarrow> int \<Rightarrow> int option" where
  "ptrdiff_mul a b = (if ptrdiff_ok (a * b) then Some (a * b) else None)"

definition int_rem :: "int \<Rightarrow> int \<Rightarrow> int option" where
  "int_rem a b =
     (if b = 0 \<or> (a = - (2 ^ 31) \<and> b = - 1) then None
      else Some (a - b * (sgn a * sgn b * (\<bar>a\<bar> div \<bar>b\<bar>))))"

definition to_size_t :: "int \<Rightarrow> nat" where
  "to_size_t x = nat (x mod 2 ^ 64)"

text \<open>An index into a C array: a negative index is undefined behaviour.\<close>

definition index_of :: "int \<Rightarrow> nat option" where
  "index_of i = (if 0 \<le> i then Some (nat i) else None)"

text \<open>A \<^verbatim>\<open>const int*\<close> table is modelled by the array it points to (\<open>None\<close> for the
  null pointer); the engines never write through these pointers.\<close>

definition arr_read :: "int list option \<Rightarrow> int \<Rightarrow> int option" where
  "arr_read arr i =
     (case arr of None \<Rightarrow> None
      | Some xs \<Rightarrow> if 0 \<le> i \<and> nat i < length xs then Some (xs ! nat i) else None)"

section \<open>Communicator, exchange slots, per-rank control state\<close>

datatype coll_status = collSuccess | collError

record coll_comm =
  global_rank :: int
  global_comm_size :: int

record alltoall_args =
  sendbuf :: ptr
  sendcount :: int
  sendtype :: int
  recvbuf :: ptr
  recvcount :: int
  recvtype :: int

record alltoallv_args =
  v_sendbuf :: ptr
  v_sendcounts :: "int list option"
  v_sdispls :: "int list option"
  v_sendtype :: int
  v_recvbuf :: ptr
  v_recvcounts :: "int list option"
  v_rdispls :: "int list option"
  v_recvtype :: int

text \<open>
  The parts of a call that the engines only read. \<open>dtype_size\<close> stands for
  \<^verbatim>\<open>get_dtype_size\<close> / \<^verbatim>\<open>collLocalDtypeSize\<close> and \<open>pool_depth\<close> for the number of
  slots of the buffer pool: both are declared in \<^verbatim>\<open>coll.h\<close>, which is not among the
  sources, and are taken as parameters.
\<close>

record config =
  nranks :: nat
  dtype_size :: "int \<Rightarrow> int"
  pool_depth :: nat
  comm :: "nat \<Rightarrow> coll_comm"
  a2a :: "nat \<Rightarrow> alltoall_args"
  a2av :: "nat \<Rightarrow> alltoallv_args"

record slot =
  buffers :: "nat \<Rightarrow> ptr"
  buffers_ready :: "nat \<Rightarrow> bool"
  displs :: "nat \<Rightarrow> int list option"

text \<open>The program points of one call. \<open>Poll i\<close> and \<open>Copy i\<close> carry the loop counter.\<close>

datatype pc =
    Entry
  | StoreDispls
  | StoreBuffer
  | StoreReady
  | FenceA
  | Poll int
  | Copy int
  | BarrierEnter
  | BarrierWait nat
  | FreeTmp
  | FenceB
  | Update
  | Ret
  | Returned coll_status
  | Aborted
  | Faulted

record rank_state =
  pc :: pc
  sendbuf_tmp :: ptr
  current_buffer_idx :: nat
  slot_ptr :: nat

text \<open>What a rank does, in program order; the trace of a run records it.\<close>

datatype event =
    EvAbort
  | EvFault
  | EvMalloc nat
  | EvStoreDispls
  | EvStoreBuffer ptr
  | EvStoreReady
  | EvFence
  | EvSpin nat
  | EvReady nat
  | EvCopy nat nat
  | EvBarrierEnter
  | EvBarrierSpin
  | EvBarrierLeave
  | EvFree
  | EvUpdate
  | EvReturn coll_status

record state =
  heap :: heap
  local_buffer :: "nat \<Rightarrow> slot"
  ranks :: "nat \<Rightarrow> rank_state"
  barrier_count :: nat
  barrier_gen :: nat
  trace :: "(nat \<times> event) list"

definition set_rank :: "nat \<Rightarrow> (rank_state \<Rightarrow> rank_state) \<Rightarrow> state \<Rightarrow> state" where
  "set_rank r f s = s\<lparr>ranks := (ranks s)(r := f (ranks s r))\<rparr>"

definition goto :: "nat \<Rightarrow> pc \<Rightarrow> state \<Rightarrow> state" where
  "goto r p s = set_rank r (\<lambda>t. t\<lparr>pc := p\<rparr>) s"

definition emit :: "nat \<Rightarrow> event \<Rightarrow> state \<Rightarrow> state" where
  "emit r e s = s\<lparr>trace := trace s @ [(r, e)]\<rparr>"

definition abort :: "nat \<Rightarrow> state \<Rightarrow> state" where
  "abort r s = emit r EvAbort (goto r Aborted s)"

definition fault :: "nat \<Rightarrow> state \<Rightarrow> state" where
  "fault r s = emit r EvFault (goto r Faulted s)"

definition set_slot :: "nat \<Rightarrow> (slot \<Rightarrow> slot) \<Rightarrow> state \<Rightarrow> state" where
  "set_slot k f s = s\<lparr>local_buffer := (local_buffer s)(k := f (local_buffer s k))\<rparr>"

definition cur_slot :: "state \<Rightarrow> nat \<Rightarrow> slot" where
  "cur_slot s r = local_buffer s (slot_ptr (ranks s r))"

section \<open>Local barrier and pool advance\<close>

text \<open>
  Modelled from the spec: \<^verbatim>\<open>collBarrierLocal\<close> is defined in \<^verbatim>\<open>coll.cc\<close>, which is not
  among the sources. Section 4.3 of the spec: a rendezvous of the ranks of one group,
  reusable from call to call through a generation counter. A rank arrives (the last
  arrival opens the next generation) and then spins until the generation it arrived in
  is over.
\<close>

definition collBarrierLocal_arrive :: "config \<Rightarrow> nat \<Rightarrow> state \<Rightarrow> state" where
  "collBarrierLocal_arrive cfg r s =
     emit r EvBarrierEnter
       (goto r (BarrierWait (barrier_gen s))
          (if nranks cfg \<le> Suc (barrier_count s)
           then s\<lparr>barrier_count := 0, barrier_gen := Suc (barrier_gen s)\<rparr>
           else s\<lparr>barrier_count := Suc (barrier_count s)\<rparr>))"

definition collBarrierLocal_wait :: "nat \<Rightarrow> nat \<Rightarrow> pc \<Rightarrow> state \<Rightarrow> state" where
  "collBarrierLocal_wait r g next s =
     (if barrier_gen s \<noteq> g then emit r EvBarrierLeave (goto r next s)
      else emit r EvBarrierSpin s)"

text \<open>
  Modelled from the spec: \<^verbatim>\<open>collUpdateBuffer\<close> is defined in \<^verbatim>\<open>coll.cc\<close>, which is not
  among the sources. Section 4.2 of the spec: it moves the pool cursor to the next slot,
  wrapping modulo the pool depth, and resets that slot's entries for this rank to their
  empty state. The communicator's reference to the active slot follows the cursor.
\<close>

definition collUpdateBuffer :: "config \<Rightarrow> nat \<Rightarrow> state \<Rightarrow> state" where
  "collUpdateBuffer cfg r s =
     (let k = Suc (current_buffer_idx (ranks s r)) mod pool_depth cfg;
          me = nat (global_rank (comm cfg r))
      in set_rank r (\<lambda>t. t\<lparr>current_buffer_idx := k, slot_ptr := k\<rparr>)
           (set_slot k (\<lambda>b. b\<lparr>buffers := (buffers b)(me := Null),
                                buffers_ready := (buffers_ready b)(me := False),
                                displs := (displs b)(me := None)\<rparr>) s))"

section \<open>The ring order\<close>

text \<open>\<^verbatim>\<open>recvfrom_global_rank = (global_rank + total_size - i) % total_size\<close>, the same line
  in both engines.\<close>

definition recvfrom_global_rank :: "coll_comm \<Rightarrow> int \<Rightarrow> nat option" where
  "recvfrom_global_rank c i =
     (case int_add (global_rank c) (global_comm_size c) of None \<Rightarrow> None | Some t \<Rightarrow>
      (case int_sub t i of None \<Rightarrow> None | Some u \<Rightarrow>
       (case int_rem u (global_comm_size c) of None \<Rightarrow> None | Some p \<Rightarrow> index_of p)))"

section \<open>collAlltoallLocal\<close>

text \<open>The size of the scratch buffer of an in-place call, line 44:
  \<^verbatim>\<open>total_size * sendtype_extent * sendcount\<close>, computed in \<^verbatim>\<open>int\<close> and converted to
  \<^verbatim>\<open>size_t\<close>.\<close>

definition alltoall_scratch_bytes :: "config \<Rightarrow> nat \<Rightarrow> nat option" where
  "alltoall_scratch_bytes cfg r =
     (case int_mul (global_comm_size (comm cfg r)) (dtype_size cfg (sendtype (a2a cfg r))) of
        None \<Rightarrow> None
      | Some m \<Rightarrow>
         (case int_mul m (sendcount (a2a cfg r)) of None \<Rightarrow> None
          | Some bytes \<Rightarrow> Some (to_size_t bytes)))"

text \<open>Lines 30 to 50: the two assertions and the in-place copy into a scratch buffer.\<close>

definition alltoall_entry :: "config \<Rightarrow> nat \<Rightarrow> state \<Rightarrow> state" where
  "alltoall_entry cfg r s =
     (let a = a2a cfg r
      in if recvcount a \<noteq> sendcount a \<or> sendtype a \<noteq> recvtype a then abort r s
         else if sendbuf a = recvbuf a then
           (case alltoall_scratch_bytes cfg r of None \<Rightarrow> fault r s | Some bytes \<Rightarrow>
             (case malloc (heap s) bytes of (tmp, h1) \<Rightarrow>
              (case memcpy h1 tmp (recvbuf a) bytes of
                 None \<Rightarrow> fault r (s\<lparr>heap := h1\<rparr>)
               | Some h2 \<Rightarrow>
                   emit r (EvMalloc bytes)
                     (goto r StoreBuffer
                        (set_rank r (\<lambda>t. t\<lparr>sendbuf_tmp := tmp\<rparr>) (s\<lparr>heap := h2\<rparr>))))))
         else goto r StoreBuffer (set_rank r (\<lambda>t. t\<lparr>sendbuf_tmp := sendbuf a\<rparr>) s))"

text \<open>Lines 52 and 53: select the slot of the pool cursor and publish the pointer.\<close>

definition alltoall_store_buffer :: "config \<Rightarrow> nat \<Rightarrow> state \<Rightarrow> state" where
  "alltoall_store_buffer cfg r s =
     (case index_of (global_rank (comm cfg r)) of None \<Rightarrow> fault r s | Some me \<Rightarrow>
        (let k = current_buffer_idx (ranks s r);
             tmp = sendbuf_tmp (ranks s r)
         in emit r (EvStoreBuffer tmp)
              (goto r StoreReady
                 (set_slot k (\<lambda>b. b\<lparr>buffers := (buffers b)(me := tmp)\<rparr>)
                    (set_rank r (\<lambda>t. t\<lparr>slot_ptr := k\<rparr>) s)))))"

text \<open>Line 54.\<close>

definition alltoall_store_ready :: "config \<Rightarrow> nat \<Rightarrow> state \<Rightarrow> state" where
  "alltoall_store_ready cfg r s =
     (case index_of (global_rank (comm cfg r)) of None \<Rightarrow> fault r s | Some me \<Rightarrow>
        emit r EvStoreReady
          (goto r FenceA
             (set_slot (slot_ptr (ranks s r))
                (\<lambda>b. b\<lparr>buffers_ready := (buffers_ready b)(me := True)\<rparr>) s)))"

text \<open>Lines 60 to 62: the loop test, the peer of this round and one read of its flag.\<close>

definition alltoall_poll :: "config \<Rightarrow> nat \<Rightarrow> int \<Rightarrow> state \<Rightarrow> state" where
  "alltoall_poll cfg r i s =
     (case int_add (global_comm_size (comm cfg r)) 1 of None \<Rightarrow> fault r s | Some bound \<Rightarrow>
        if \<not> i < bound then goto r BarrierEnter s
        else (case recvfrom_global_rank (comm cfg r) i of None \<Rightarrow> fault r s | Some peer \<Rightarrow>
          if buffers_ready (cur_slot s r) peer then emit r (EvReady peer) (goto r (Copy i) s)
          else emit r (EvSpin peer) s))"

text \<open>The arithmetic of one round, lines 61 to 70: the peer, the byte offset into the
  peer's published buffer (\<^verbatim>\<open>(ptrdiff_t)recvfrom_seg_id * sendtype_extent * sendcount\<close>),
  the byte offset into the receive buffer
  (\<^verbatim>\<open>(ptrdiff_t)recvfrom_global_rank * recvtype_extent * recvcount\<close>) and the length
  \<^verbatim>\<open>sendcount * sendtype_extent\<close>.\<close>

definition alltoall_plan :: "config \<Rightarrow> nat \<Rightarrow> int \<Rightarrow> (nat \<times> int \<times> int \<times> nat) option" where
  "alltoall_plan cfg r i =
     (let a = a2a cfg r;
          recvfrom_seg_id = global_rank (comm cfg r);
          sendtype_extent = dtype_size cfg (sendtype a);
          recvtype_extent = dtype_size cfg (recvtype a)
      in case recvfrom_global_rank (comm cfg r) i of None \<Rightarrow> None | Some peer \<Rightarrow>
         (case ptrdiff_mul recvfrom_seg_id sendtype_extent of None \<Rightarrow> None | Some x \<Rightarrow>
          (case ptrdiff_mul x (sendcount a) of None \<Rightarrow> None | Some soff \<Rightarrow>
           (case ptrdiff_mul (int peer) recvtype_extent of None \<Rightarrow> None | Some y \<Rightarrow>
            (case ptrdiff_mul y (recvcount a) of None \<Rightarrow> None | Some doff \<Rightarrow>
             (case int_mul (sendcount a) sendtype_extent of None \<Rightarrow> None | Some n \<Rightarrow>
                Some (peer, soff, doff, to_size_t n)))))))"

text \<open>Lines 63 to 70 and the increment of the loop counter.\<close>

definition alltoall_copy :: "config \<Rightarrow> nat \<Rightarrow> int \<Rightarrow> state \<Rightarrow> state" where
  "alltoall_copy cfg r i s =
     (case alltoall_plan cfg r i of None \<Rightarrow> fault r s | Some (peer, soff, doff, n) \<Rightarrow>
       (case memcpy (heap s) (ptr_add (recvbuf (a2a cfg r)) doff)
               (ptr_add (buffers (cur_slot s r) peer) soff) n of
          None \<Rightarrow> fault r s
        | Some h \<Rightarrow>
           (case int_add i 1 of None \<Rightarrow> fault r (s\<lparr>heap := h\<rparr>) | Some i' \<Rightarrow>
              emit r (EvCopy peer n) (goto r (Poll i') (s\<lparr>heap := h\<rparr>)))))"

text \<open>Lines 74 to 76, shared with lines 100 of the ragged engine: the scratch buffer is
  freed when the call was in place.\<close>

definition free_tmp :: "bool \<Rightarrow> nat \<Rightarrow> pc \<Rightarrow> state \<Rightarrow> state" where
  "free_tmp in_place r next s =
     (if in_place then
        (case free (heap s) (sendbuf_tmp (ranks s r)) of None \<Rightarrow> fault r s
         | Some h \<Rightarrow> emit r EvFree (goto r next (s\<lparr>heap := h\<rparr>)))
      else goto r next s)"

text \<open>One atomic step of rank \<open>r\<close> inside \<^verbatim>\<open>collAlltoallLocal\<close>. A rank that has
  returned, aborted or faulted does nothing more; a rank outside the group never runs.\<close>

definition collAlltoallLocal_step :: "config \<Rightarrow> nat \<Rightarrow> state \<Rightarrow> state" where
  "collAlltoallLocal_step cfg r s =
     (if nranks cfg \<le> r then s else
      (case pc (ranks s r) of
         Entry \<Rightarrow> alltoall_entry cfg r s
       | StoreDispls \<Rightarrow> s
       | StoreBuffer \<Rightarrow> alltoall_store_buffer cfg r s
       | StoreReady \<Rightarrow> alltoall_store_ready cfg r s
       | FenceA \<Rightarrow> emit r EvFence (goto r (Poll 1) s)
       | Poll i \<Rightarrow> alltoall_poll cfg r i s
       | Copy i \<Rightarrow> alltoall_copy cfg r i s
       | BarrierEnter \<Rightarrow> collBarrierLocal_arrive cfg r s
       | BarrierWait g \<Rightarrow> collBarrierLocal_wait r g FreeTmp s
       | FreeTmp \<Rightarrow> free_tmp (sendbuf (a2a cfg r) = recvbuf (a2a cfg r)) r Update s
       | Update \<Rightarrow> emit r EvUpdate (goto r FenceB (collUpdateBuffer cfg r s))
       | FenceB \<Rightarrow> emit r EvFence (goto r Ret s)
       | Ret \<Rightarrow> emit r (EvReturn collSuccess) (goto r (Returned collSuccess) s)
       | Returned x \<Rightarrow> s
       | Aborted \<Rightarrow> s
       | Faulted \<Rightarrow> s))"

section \<open>collAlltoallvLocal\<close>

text \<open>The size of the scratch buffer of an in-place call, lines 53 and 54:
  \<^verbatim>\<open>sendtype_extent * (sdispls[total_size - 1] + sendcounts[total_size - 1])\<close>.\<close>

definition alltoallv_scratch_bytes :: "config \<Rightarrow> nat \<Rightarrow> nat option" where
  "alltoallv_scratch_bytes cfg r =
     (let a = a2av cfg r
      in case int_sub (global_comm_size (comm cfg r)) 1 of None \<Rightarrow> None | Some last_peer \<Rightarrow>
         (case arr_read (v_sdispls a) last_peer of None \<Rightarrow> None | Some d \<Rightarrow>
          (case arr_read (v_sendcounts a) last_peer of None \<Rightarrow> None | Some c \<Rightarrow>
           (case int_add d c of None \<Rightarrow> None | Some total_send_count \<Rightarrow>
            (case int_mul (dtype_size cfg (v_sendtype a)) total_send_count of None \<Rightarrow> None
             | Some bytes \<Rightarrow> Some (to_size_t bytes))))))"

text \<open>Lines 40 to 61: the assertion and the in-place copy into a scratch buffer.\<close>

definition alltoallv_entry :: "config \<Rightarrow> nat \<Rightarrow> state \<Rightarrow> state" where
  "alltoallv_entry cfg r s =
     (let a = a2av cfg r
      in if v_sendtype a \<noteq> v_recvtype a then abort r s
         else if v_sendbuf a = v_recvbuf a then
           (case alltoallv_scratch_bytes cfg r of None \<Rightarrow> fault r s | Some bytes \<Rightarrow>
             (case malloc (heap s) bytes of (tmp, h1) \<Rightarrow>
              (case memcpy h1 tmp (v_recvbuf a) bytes of
                 None \<Rightarrow> fault r (s\<lparr>heap := h1\<rparr>)
               | Some h2 \<Rightarrow>
                   emit r (EvMalloc bytes)
                     (goto r StoreDispls
                        (set_rank r (\<lambda>t. t\<lparr>sendbuf_tmp := tmp\<rparr>) (s\<lparr>heap := h2\<rparr>))))))
         else goto r StoreDispls (set_rank r (\<lambda>t. t\<lparr>sendbuf_tmp := v_sendbuf a\<rparr>) s))"

text \<open>Line 63.\<close>

definition alltoallv_store_displs :: "config \<Rightarrow> nat \<Rightarrow> state \<Rightarrow> state" where
  "alltoallv_store_displs cfg r s =
     (case index_of (global_rank (comm cfg r)) of None \<Rightarrow> fault r s | Some me \<Rightarrow>
        emit r EvStoreDispls
          (goto r StoreBuffer
             (set_slot (slot_ptr (ranks s r))
                (\<lambda>b. b\<lparr>displs := (displs b)(me := v_sdispls (a2av cfg r))\<rparr>) s)))"

text \<open>Line 64.\<close>

definition alltoallv_store_buffer :: "config \<Rightarrow> nat \<Rightarrow> state \<Rightarrow> state" where
  "alltoallv_store_buffer cfg r s =
     (case index_of (global_rank (comm cfg r)) of None \<Rightarrow> fault r s | Some me \<Rightarrow>
        emit r (EvStoreBuffer (sendbuf_tmp (ranks s r)))
          (goto r FenceA
             (set_slot (slot_ptr (ranks s r))
                (\<lambda>b. b\<lparr>buffers := (buffers b)(me := sendbuf_tmp (ranks s r))\<rparr>) s)))"

text \<open>Lines 71 to 75: the loop test, the peer of this round and one evaluation of the
  condition of the spin loop.\<close>

definition alltoallv_poll :: "config \<Rightarrow> nat \<Rightarrow> int \<Rightarrow> state \<Rightarrow> state" where
  "alltoallv_poll cfg r i s =
     (case int_add (global_comm_size (comm cfg r)) 1 of None \<Rightarrow> fault r s | Some bound \<Rightarrow>
        if \<not> i < bound then goto r BarrierEnter s
        else (case recvfrom_global_rank (comm cfg r) i of None \<Rightarrow> fault r s | Some peer \<Rightarrow>
          if buffers (cur_slot s r) peer = Null \<or> displs (cur_slot s r) peer = None
          then emit r (EvSpin peer) s
          else emit r (EvReady peer) (goto r (Copy i) s)))"

text \<open>The arithmetic of one round, lines 72 to 96, given the displacement table that
  the peer published: the peer, the byte offset into the peer's published buffer
  (\<^verbatim>\<open>(ptrdiff_t)displs[recvfrom_seg_id] * sendtype_extent\<close>), the byte offset into the
  receive buffer (\<^verbatim>\<open>(ptrdiff_t)rdispls[recvfrom_global_rank] * recvtype_extent\<close>) and the
  length \<^verbatim>\<open>recvcounts[recvfrom_global_rank] * recvtype_extent\<close>.\<close>

definition alltoallv_plan ::
  "config \<Rightarrow> nat \<Rightarrow> int \<Rightarrow> (nat \<Rightarrow> int list option) \<Rightarrow> (nat \<times> int \<times> int \<times> nat) option" where
  "alltoallv_plan cfg r i published =
     (let a = a2av cfg r;
          recvfrom_seg_id = global_rank (comm cfg r);
          sendtype_extent = dtype_size cfg (v_sendtype a);
          recvtype_extent = dtype_size cfg (v_recvtype a)
      in case recvfrom_global_rank (comm cfg r) i of None \<Rightarrow> None | Some peer \<Rightarrow>
         (case arr_read (published peer) recvfrom_seg_id of None \<Rightarrow> None | Some sd \<Rightarrow>
          (case ptrdiff_mul sd sendtype_extent of None \<Rightarrow> None | Some soff \<Rightarrow>
           (case arr_read (v_rdispls a) (int peer) of None \<Rightarrow> None | Some rd \<Rightarrow>
            (case ptrdiff_mul rd recvtype_extent of None \<Rightarrow> None | Some doff \<Rightarrow>
             (case arr_read (v_recvcounts a) (int peer) of None \<Rightarrow> None | Some rc \<Rightarrow>
              (case int_mul rc recvtype_extent of None \<Rightarrow> None | Some n \<Rightarrow>
                 Some (peer, soff, doff, to_size_t n))))))))"

text \<open>Lines 76 to 96 and the increment of the loop counter.\<close>

definition alltoallv_copy :: "config \<Rightarrow> nat \<Rightarrow> int \<Rightarrow> state \<Rightarrow> state" where
  "alltoallv_copy cfg r i s =
     (case alltoallv_plan cfg r i (displs (cur_slot s r)) of
        None \<Rightarrow> fault r s
      | Some (peer, soff, doff, n) \<Rightarrow>
         (case memcpy (heap s) (ptr_add (v_recvbuf (a2av cfg r)) doff)
                 (ptr_add (buffers (cur_slot s r) peer) soff) n of
            None \<Rightarrow> fault r s
          | Some h \<Rightarrow>
             (case int_add i 1 of None \<Rightarrow> fault r (s\<lparr>heap := h\<rparr>) | Some i' \<Rightarrow>
                emit r (EvCopy peer n) (goto r (Poll i') (s\<lparr>heap := h\<rparr>)))))"

text \<open>One atomic step of rank \<open>r\<close> inside \<^verbatim>\<open>collAlltoallvLocal\<close>.\<close>

definition collAlltoallvLocal_step :: "config \<Rightarrow> nat \<Rightarrow> state \<Rightarrow> state" where
  "collAlltoallvLocal_step cfg r s =
     (if nranks cfg \<le> r then s else
      (case pc (ranks s r) of
         Entry \<Rightarrow> alltoallv_entry cfg r s
       | StoreDispls \<Rightarrow> alltoallv_store_displs cfg r s
       | StoreBuffer \<Rightarrow> alltoallv_store_buffer cfg r s
       | StoreReady \<Rightarrow> s
       | FenceA \<Rightarrow> emit r EvFence (goto r (Poll 1) s)
       | Poll i \<Rightarrow> alltoallv_poll cfg r i s
       | Copy i \<Rightarrow> alltoallv_copy cfg r i s
       | BarrierEnter \<Rightarrow> collBarrierLocal_arrive cfg r s
       | BarrierWait g \<Rightarrow> collBarrierLocal_wait r g FreeTmp s
       | FreeTmp \<Rightarrow> free_tmp (v_sendbuf (a2av cfg r) = v_recvbuf (a2av cfg r)) r FenceB s
       | FenceB \<Rightarrow> emit r EvFence (goto r Update s)
       | Update \<Rightarrow> emit r EvUpdate (goto r Ret (collUpdateBuffer cfg r s))
       | Ret \<Rightarrow> emit r (EvReturn collSuccess) (goto r (Returned collSuccess) s)
       | Returned x \<Rightarrow> s
       | Aborted \<Rightarrow> s
       | Faulted \<Rightarrow> s))"

section \<open>Runs\<close>

text \<open>
  A run interleaves the ranks: the schedule names, step by step, the rank that executes
  its next atomic step. A rank whose spin loop finds its peer not ready stays where it
  is, so a spinning rank is a rank that is scheduled without effect.
\<close>

fun run :: "(nat \<Rightarrow> state \<Rightarrow> state) \<Rightarrow> nat list \<Rightarrow> state \<Rightarrow> state" where
  "run stp [] s = s"
| "run stp (r # rs) s = run stp rs (stp r s)"

definition empty_slot :: slot where
  "empty_slot = \<lparr>buffers = (\<lambda>_. Null), buffers_ready = (\<lambda>_. False), displs = (\<lambda>_. None)\<rparr>"

text \<open>The state in which every rank is about to call the collective: the pool is empty
  and every communicator points at slot \<open>k\<close>.\<close>

definition start_state :: "heap \<Rightarrow> nat \<Rightarrow> state" where
  "start_state h k =
     \<lparr>heap = h, local_buffer = (\<lambda>_. empty_slot),
      ranks = (\<lambda>_. \<lparr>pc = Entry, sendbuf_tmp = Null, current_buffer_idx = k, slot_ptr = k\<rparr>),
      barrier_count = 0, barrier_gen = 0, trace = []\<rparr>"

section \<open>Vocabulary of the specification\<close>

definition comm_ok :: "config \<Rightarrow> bool" where
  "comm_ok cfg \<longleftrightarrow>
     (\<forall>r<nranks cfg. global_rank (comm cfg r) = int r
                    \<and> global_comm_size (comm cfg r) = int (nranks cfg))"

definition ring_peer :: "nat \<Rightarrow> nat \<Rightarrow> nat \<Rightarrow> nat" where
  "ring_peer n r j = (r + n - j) mod n"

fun is_spin :: "event \<Rightarrow> bool" where
  "is_spin (EvSpin p) = True"
| "is_spin EvBarrierSpin = True"
| "is_spin e = False"

definition events :: "nat \<Rightarrow> (nat \<times> event) list \<Rightarrow> event list" where
  "events r tr = map snd (filter (\<lambda>x. fst x = r \<and> \<not> is_spin (snd x)) tr)"

definition others_same :: "nat \<Rightarrow> state \<Rightarrow> state \<Rightarrow> bool" where
  "others_same q s s' \<longleftrightarrow>
     (\<forall>r. r \<noteq> q \<longrightarrow> ranks s' r = ranks s r \<and> events r (trace s') = events r (trace s))"

definition a2a_inplace :: "config \<Rightarrow> nat \<Rightarrow> bool" where
  "a2a_inplace cfg r \<longleftrightarrow> sendbuf (a2a cfg r) = recvbuf (a2a cfg r)"

definition a2a_len :: "config \<Rightarrow> nat \<Rightarrow> nat" where
  "a2a_len cfg r = to_size_t (sendcount (a2a cfg r) * dtype_size cfg (sendtype (a2a cfg r)))"

definition a2a_bytes :: "config \<Rightarrow> nat \<Rightarrow> nat" where
  "a2a_bytes cfg r =
     to_size_t (global_comm_size (comm cfg r) * dtype_size cfg (sendtype (a2a cfg r))
                * sendcount (a2a cfg r))"

definition rounds :: "nat \<Rightarrow> nat \<Rightarrow> (nat \<Rightarrow> nat) \<Rightarrow> nat \<Rightarrow> event list" where
  "rounds n r len m =
     concat (map (\<lambda>j. [EvReady (ring_peer n r j), EvCopy (ring_peer n r j) (len (ring_peer n r j))])
                 [1..<Suc m])"

definition a2a_pre :: "config \<Rightarrow> nat \<Rightarrow> event list" where
  "a2a_pre cfg r = (if a2a_inplace cfg r then [EvMalloc (a2a_bytes cfg r)] else [])"

definition a2a_loop :: "config \<Rightarrow> nat \<Rightarrow> ptr \<Rightarrow> nat \<Rightarrow> event list" where
  "a2a_loop cfg r tmp m =
     a2a_pre cfg r @ [EvStoreBuffer tmp, EvStoreReady, EvFence]
       @ rounds (nranks cfg) r (\<lambda>_. a2a_len cfg r) m"

definition a2a_post :: "config \<Rightarrow> nat \<Rightarrow> ptr \<Rightarrow> event list" where
  "a2a_post cfg r tmp =
     a2a_loop cfg r tmp (nranks cfg) @ [EvBarrierEnter, EvBarrierLeave]
       @ (if a2a_inplace cfg r then [EvFree] else [])"

fun a2a_history :: "config \<Rightarrow> nat \<Rightarrow> ptr \<Rightarrow> pc \<Rightarrow> event list option" where
  "a2a_history cfg r tmp Entry = Some []"
| "a2a_history cfg r tmp StoreDispls = None"
| "a2a_history cfg r tmp StoreBuffer = Some (a2a_pre cfg r)"
| "a2a_history cfg r tmp StoreReady = Some (a2a_pre cfg r @ [EvStoreBuffer tmp])"
| "a2a_history cfg r tmp FenceA = Some (a2a_pre cfg r @ [EvStoreBuffer tmp, EvStoreReady])"
| "a2a_history cfg r tmp (Poll i) =
     (if 1 \<le> i \<and> i \<le> int (nranks cfg) + 1 then Some (a2a_loop cfg r tmp (nat (i - 1)))
      else None)"
| "a2a_history cfg r tmp (Copy i) =
     (if 1 \<le> i \<and> i \<le> int (nranks cfg)
      then Some (a2a_loop cfg r tmp (nat (i - 1)) @ [EvReady (ring_peer (nranks cfg) r (nat i))])
      else None)"
| "a2a_history cfg r tmp BarrierEnter = Some (a2a_loop cfg r tmp (nranks cfg))"
| "a2a_history cfg r tmp (BarrierWait g) =
     Some (a2a_loop cfg r tmp (nranks cfg) @ [EvBarrierEnter])"
| "a2a_history cfg r tmp FreeTmp =
     Some (a2a_loop cfg r tmp (nranks cfg) @ [EvBarrierEnter, EvBarrierLeave])"
| "a2a_history cfg r tmp Update = Some (a2a_post cfg r tmp)"
| "a2a_history cfg r tmp FenceB = Some (a2a_post cfg r tmp @ [EvUpdate])"
| "a2a_history cfg r tmp Ret = Some (a2a_post cfg r tmp @ [EvUpdate, EvFence])"
| "a2a_history cfg r tmp (Returned x) =
     (if x = collSuccess
      then Some (a2a_post cfg r tmp @ [EvUpdate, EvFence, EvReturn collSuccess]) else None)"
| "a2a_history cfg r tmp Aborted = None"
| "a2a_history cfg r tmp Faulted = None"

fun before_update :: "pc \<Rightarrow> bool" where
  "before_update FenceB = False"
| "before_update Update = False"
| "before_update Ret = False"
| "before_update (Returned x) = False"
| "before_update Aborted = False"
| "before_update Faulted = False"
| "before_update p = True"

definition a2a_trace_ok :: "config \<Rightarrow> nat \<Rightarrow> ptr \<Rightarrow> pc \<Rightarrow> event list \<Rightarrow> bool" where
  "a2a_trace_ok cfg r tmp p evs \<longleftrightarrow>
     (if p = Aborted then evs = [EvAbort]
      else if p = Faulted
      then (\<exists>p0 tmp0 h. a2a_history cfg r tmp0 p0 = Some h \<and> before_update p0 \<and> p0 \<noteq> Update
                \<and> evs = h @ [EvFault])
      else a2a_history cfg r tmp p = Some evs)"

definition a2a_trace_inv :: "config \<Rightarrow> state \<Rightarrow> bool" where
  "a2a_trace_inv cfg s \<longleftrightarrow>
     (\<forall>r<nranks cfg. a2a_trace_ok cfg r (sendbuf_tmp (ranks s r)) (pc (ranks s r))
                       (events r (trace s)))"

definition a2a_rank_trace :: "config \<Rightarrow> state \<Rightarrow> nat \<Rightarrow> bool" where
  "a2a_rank_trace cfg s r \<longleftrightarrow>
     a2a_trace_ok cfg r (sendbuf_tmp (ranks s r)) (pc (ranks s r)) (events r (trace s))"

definition elem :: "int list option \<Rightarrow> nat \<Rightarrow> int" where
  "elem t i = (case t of None \<Rightarrow> 0 | Some xs \<Rightarrow> if i < length xs then xs ! i else 0)"

definition a2av_inplace :: "config \<Rightarrow> nat \<Rightarrow> bool" where
  "a2av_inplace cfg r \<longleftrightarrow> v_sendbuf (a2av cfg r) = v_recvbuf (a2av cfg r)"

definition a2av_len :: "config \<Rightarrow> nat \<Rightarrow> nat \<Rightarrow> nat" where
  "a2av_len cfg r p =
     to_size_t (elem (v_recvcounts (a2av cfg r)) p * dtype_size cfg (v_recvtype (a2av cfg r)))"

definition a2av_bytes :: "config \<Rightarrow> nat \<Rightarrow> nat" where
  "a2av_bytes cfg r =
     to_size_t (dtype_size cfg (v_sendtype (a2av cfg r))
                * (elem (v_sdispls (a2av cfg r)) (nat (global_comm_size (comm cfg r) - 1))
                   + elem (v_sendcounts (a2av cfg r)) (nat (global_comm_size (comm cfg r) - 1))))"

definition a2av_pre :: "config \<Rightarrow> nat \<Rightarrow> event list" where
  "a2av_pre cfg r = (if a2av_inplace cfg r then [EvMalloc (a2av_bytes cfg r)] else [])"

definition a2av_loop :: "config \<Rightarrow> nat \<Rightarrow> ptr \<Rightarrow> nat \<Rightarrow> event list" where
  "a2av_loop cfg r tmp m =
     a2av_pre cfg r @ [EvStoreDispls, EvStoreBuffer tmp, EvFence]
       @ rounds (nranks cfg) r (a2av_len cfg r) m"

definition a2av_post :: "config \<Rightarrow> nat \<Rightarrow> ptr \<Rightarrow> event list" where
  "a2av_post cfg r tmp =
     a2av_loop cfg r tmp (nranks cfg) @ [EvBarrierEnter, EvBarrierLeave]
       @ (if a2av_inplace cfg r then [EvFree] else [])"

fun a2av_history :: "config \<Rightarrow> nat \<Rightarrow> ptr \<Rightarrow> pc \<Rightarrow> event list option" where
  "a2av_history cfg r tmp Entry = Some []"
| "a2av_history cfg r tmp StoreDispls = Some (a2av_pre cfg r)"
| "a2av_history cfg r tmp StoreBuffer = Some (a2av_pre cfg r @ [EvStoreDispls])"
| "a2av_history cfg r tmp StoreReady = None"
| "a2av_history cfg r tmp FenceA = Some (a2av_pre cfg r @ [EvStoreDispls, EvStoreBuffer tmp])"
| "a2av_history cfg r tmp (Poll i) =
     (if 1 \<le> i \<and> i \<le> int (nranks cfg) + 1 then Some (a2av_loop cfg r tmp (nat (i - 1)))
      else None)"
| "a2av_history cfg r tmp (Copy i) =
     (if 1 \<le> i \<and> i \<le> int (nranks cfg)
      then Some (a2av_loop cfg r tmp (nat (i - 1)) @ [EvReady (ring_peer (nranks cfg) r (nat i))])
      else None)"
| "a2av_history cfg r tmp BarrierEnter = Some (a2av_loop cfg r tmp (nranks cfg))"
| "a2av_history cfg r tmp (BarrierWait g) =
     Some (a2av_loop cfg r tmp (nranks cfg) @ [EvBarrierEnter])"
| "a2av_history cfg r tmp FreeTmp =
     Some (a2av_loop cfg r tmp (nranks cfg) @ [EvBarrierEnter, EvBarrierLeave])"
| "a2av_history cfg r tmp FenceB = Some (a2av_post cfg r tmp)"
| "a2av_history cfg r tmp Update = Some (a2av_post cfg r tmp @ [EvFence])"
| "a2av_history cfg r tmp Ret = Some (a2av_post cfg r tmp @ [EvFence, EvUpdate])"
| "a2av_history cfg r tmp (Returned x) =
     (if x = collSuccess
      then Some (a2av_post cfg r tmp @ [EvFence, EvUpdate, EvReturn collSuccess]) else None)"
| "a2av_history cfg r tmp Aborted = None"
| "a2av_history cfg r tmp Faulted = None"

definition a2av_trace_ok :: "config \<Rightarrow> nat \<Rightarrow> ptr \<Rightarrow> pc \<Rightarrow> event list \<Rightarrow> bool" where
  "a2av_trace_ok cfg r tmp p evs \<longleftrightarrow>
     (if p = Aborted then evs = [EvAbort]
      else if p = Faulted
      then (\<exists>p0 tmp0 h. a2av_history cfg r tmp0 p0 = Some h \<and> before_update p0 \<and> p0 \<noteq> Update
                \<and> evs = h @ [EvFault])
      else a2av_history cfg r tmp p = Some evs)"

definition a2av_rank_trace :: "config \<Rightarrow> state \<Rightarrow> nat \<Rightarrow> bool" where
  "a2av_rank_trace cfg s r \<longleftrightarrow>
     a2av_trace_ok cfg r (sendbuf_tmp (ranks s r)) (pc (ranks s r)) (events r (trace s))"

definition a2av_trace_inv :: "config \<Rightarrow> state \<Rightarrow> bool" where
  "a2av_trace_inv cfg s \<longleftrightarrow> (\<forall>r<nranks cfg. a2av_rank_trace cfg s r)"

fun ret_or_abort :: "pc \<Rightarrow> bool" where
  "ret_or_abort (Returned x) = True"
| "ret_or_abort Aborted = True"
| "ret_or_abort p = False"

fun stopped :: "pc \<Rightarrow> bool" where
  "stopped (Returned x) = True"
| "stopped Aborted = True"
| "stopped Faulted = True"
| "stopped p = False"

definition a2a_violated :: "config \<Rightarrow> nat \<Rightarrow> bool" where
  "a2a_violated cfg r \<longleftrightarrow>
     recvcount (a2a cfg r) \<noteq> sendcount (a2a cfg r) \<or> sendtype (a2a cfg r) \<noteq> recvtype (a2a cfg r)"

definition a2av_violated :: "config \<Rightarrow> nat \<Rightarrow> bool" where
  "a2av_violated cfg r \<longleftrightarrow> v_sendtype (a2av cfg r) \<noteq> v_recvtype (a2av cfg r)"

fun is_store :: "event \<Rightarrow> bool" where
  "is_store (EvStoreBuffer p) = True"
| "is_store EvStoreReady = True"
| "is_store EvStoreDispls = True"
| "is_store e = False"

fun is_copy :: "event \<Rightarrow> bool" where
  "is_copy (EvCopy p n) = True"
| "is_copy e = False"

text \<open>A fence is issued before the first store into the exchange slot.\<close>

definition fence_before_store :: "event list \<Rightarrow> bool" where
  "fence_before_store evs \<longleftrightarrow> EvFence \<in> set (takeWhile (\<lambda>e. \<not> is_store e) evs)"

text \<open>The first store into the exchange slot is the store of the pointer; the store of
  the ready flag and a fence follow it directly.\<close>

definition stores_then_fence :: "event list \<Rightarrow> bool" where
  "stores_then_fence evs \<longleftrightarrow>
     (case dropWhile (\<lambda>e. \<not> is_store e) evs of
        a # b # c # rest \<Rightarrow> is_store a \<and> b = EvStoreReady \<and> c = EvFence
      | _ \<Rightarrow> False)"

text \<open>What a rank did after its last copy.\<close>

definition after_last_copy :: "event list \<Rightarrow> event list" where
  "after_last_copy evs = rev (takeWhile (\<lambda>e. \<not> is_copy e) (rev evs))"

text \<open>Every copy from a peer directly follows a successful readiness check of that
  peer (\<open>prev\<close> is the event before the list).\<close>

fun copies_checked :: "event option \<Rightarrow> event list \<Rightarrow> bool" where
  "copies_checked prev [] = True"
| "copies_checked prev (e # es) =
     ((case e of EvCopy p n \<Rightarrow> prev = Some (EvReady p) | _ \<Rightarrow> True)
      \<and> copies_checked (Some e) es)"

fun blk_of :: "ptr \<Rightarrow> nat option" where
  "blk_of Null = None"
| "blk_of (Ptr b off) = Some b"

fun off_of :: "ptr \<Rightarrow> int" where
  "off_of Null = 0"
| "off_of (Ptr b off) = off"

text \<open>The bytes of the block a pointer points into (none for a dangling pointer).\<close>

definition block_of :: "heap \<Rightarrow> ptr \<Rightarrow> byte list" where
  "block_of h p =
     (case p of Null \<Rightarrow> []
      | Ptr b off \<Rightarrow> (case blocks h b of None \<Rightarrow> [] | Some d \<Rightarrow> d))"

text \<open>No ready flag is set in any slot of the pool.\<close>

definition no_ready :: "state \<Rightarrow> bool" where
  "no_ready s \<longleftrightarrow> (\<forall>k q. \<not> buffers_ready (local_buffer s k) q)"

text \<open>Nothing is allocated at or above the allocator's next block.\<close>

definition heap_ok :: "heap \<Rightarrow> bool" where
  "heap_ok h \<longleftrightarrow> (\<forall>b. fresh h \<le> b \<longrightarrow> blocks h b = None)"

text \<open>What one step of a rank whose receive buffer is \<open>rcv\<close> may do to the heap of a call
  that started from \<open>h0\<close>: blocks are only added; a block that exists and is not the
  rank's receive block keeps its contents, or, if it was allocated during the call, is
  freed.\<close>

definition heap_step :: "heap \<Rightarrow> ptr \<Rightarrow> heap \<Rightarrow> heap \<Rightarrow> bool" where
  "heap_step h0 rcv h h' \<longleftrightarrow>
     fresh h \<le> fresh h' \<and> (heap_ok h \<longrightarrow> heap_ok h')
     \<and> (\<forall>b<fresh h. blk_of rcv \<noteq> Some b \<longrightarrow>
            blocks h' b = blocks h b \<or> (fresh h0 \<le> b \<and> blocks h' b = None))"

text \<open>The scratch pointer of an in-place call is a block of its own, allocated during
  the call.\<close>

definition scratch_ptr :: "heap \<Rightarrow> ptr \<Rightarrow> bool" where
  "scratch_ptr h0 tmp \<longleftrightarrow> (case tmp of Null \<Rightarrow> False | Ptr k off \<Rightarrow> fresh h0 \<le> k \<and> off = 0)"

fun running :: "pc \<Rightarrow> bool" where
  "running Entry = False"
| "running Aborted = False"
| "running Faulted = False"
| "running p = True"

text \<open>The frame of a call that started from the heap \<open>h0\<close>, for \<open>n\<close> ranks with the
  receive buffers \<open>rcv\<close>: every block that existed at the start and is not the receive
  block of a rank is as it was; the scratch pointer of a running in-place rank is a block
  allocated during the call.\<close>

definition frame_inv :: "heap \<Rightarrow> nat \<Rightarrow> (nat \<Rightarrow> ptr) \<Rightarrow> (nat \<Rightarrow> bool) \<Rightarrow> state \<Rightarrow> bool" where
  "frame_inv h0 n rcv inpl s \<longleftrightarrow>
     fresh h0 \<le> fresh (heap s)
     \<and> (\<forall>b<fresh h0. (\<forall>r<n. blk_of (rcv r) \<noteq> Some b) \<longrightarrow> blocks (heap s) b = blocks h0 b)
     \<and> (\<forall>q<n. inpl q \<and> running (pc (ranks s q)) \<longrightarrow> scratch_ptr h0 (sendbuf_tmp (ranks s q)))"

text \<open>A pointer the caller passes in points into a block that exists when the call
  starts (or is null).\<close>

definition user_ptr :: "heap \<Rightarrow> ptr \<Rightarrow> bool" where
  "user_ptr h p \<longleftrightarrow> (case p of Null \<Rightarrow> True | Ptr b off \<Rightarrow> b < fresh h)"

section \<open>What a completed exchange leaves in the receive buffers\<close>

text \<open>
  The receive block of rank \<open>r\<close> after \<open>m\<close> rounds of the ring: round \<open>j\<close> overwrites it at
  the offset and with the bytes that \<open>wr\<close> gives for the peer of that round.
\<close>

definition recv_image :: "byte list \<Rightarrow> (nat \<Rightarrow> nat \<times> byte list) \<Rightarrow> nat \<Rightarrow> nat \<Rightarrow> nat \<Rightarrow> byte list" where
  "recv_image d0 wr n r m =
     foldl (\<lambda>d j. overwrite d (fst (wr (ring_peer n r j))) (snd (wr (ring_peer n r j))))
       d0 [1..<Suc m]"

text \<open>The fixed-extent engine: the bytes that rank \<open>r\<close> takes from rank \<open>p\<close> (read in the
  send buffer of \<open>p\<close> as it was when the call started), and where it puts them.\<close>

definition a2a_src_off :: "config \<Rightarrow> nat \<Rightarrow> nat \<Rightarrow> int" where
  "a2a_src_off cfg p r =
     off_of (sendbuf (a2a cfg p))
       + int r * dtype_size cfg (sendtype (a2a cfg r)) * sendcount (a2a cfg r)"

definition a2a_dst_off :: "config \<Rightarrow> nat \<Rightarrow> nat \<Rightarrow> int" where
  "a2a_dst_off cfg r p =
     off_of (recvbuf (a2a cfg r))
       + int p * dtype_size cfg (recvtype (a2a cfg r)) * recvcount (a2a cfg r)"

definition a2a_sent :: "config \<Rightarrow> heap \<Rightarrow> nat \<Rightarrow> nat \<Rightarrow> byte list" where
  "a2a_sent cfg h0 p r =
     segment (block_of h0 (sendbuf (a2a cfg p))) (nat (a2a_src_off cfg p r)) (a2a_len cfg r)"

definition a2a_write :: "config \<Rightarrow> heap \<Rightarrow> nat \<Rightarrow> nat \<Rightarrow> nat \<times> byte list" where
  "a2a_write cfg h0 r p = (nat (a2a_dst_off cfg r p), a2a_sent cfg h0 p r)"

definition a2a_full :: "config \<Rightarrow> heap \<Rightarrow> nat \<Rightarrow> nat \<Rightarrow> bool" where
  "a2a_full cfg h0 r p \<longleftrightarrow>
     0 \<le> a2a_dst_off cfg r p \<and> 0 \<le> a2a_src_off cfg p r
     \<and> length (a2a_sent cfg h0 p r) = a2a_len cfg r"

text \<open>The ragged engine: the source offset comes from the send-displacement table of the
  peer, entry \<open>r\<close>; the destination offset and the length from the receive tables of
  \<open>r\<close>, entry \<open>p\<close>.\<close>

definition a2av_src_off :: "config \<Rightarrow> nat \<Rightarrow> nat \<Rightarrow> int" where
  "a2av_src_off cfg p r =
     off_of (v_sendbuf (a2av cfg p))
       + elem (v_sdispls (a2av cfg p)) r * dtype_size cfg (v_sendtype (a2av cfg r))"

definition a2av_dst_off :: "config \<Rightarrow> nat \<Rightarrow> nat \<Rightarrow> int" where
  "a2av_dst_off cfg r p =
     off_of (v_recvbuf (a2av cfg r))
       + elem (v_rdispls (a2av cfg r)) p * dtype_size cfg (v_recvtype (a2av cfg r))"

definition a2av_sent :: "config \<Rightarrow> heap \<Rightarrow> nat \<Rightarrow> nat \<Rightarrow> byte list" where
  "a2av_sent cfg h0 p r =
     segment (block_of h0 (v_sendbuf (a2av cfg p))) (nat (a2av_src_off cfg p r))
       (a2av_len cfg r p)"

definition a2av_write :: "config \<Rightarrow> heap \<Rightarrow> nat \<Rightarrow> nat \<Rightarrow> nat \<times> byte list" where
  "a2av_write cfg h0 r p = (nat (a2av_dst_off cfg r p), a2av_sent cfg h0 p r)"

definition a2av_full :: "config \<Rightarrow> heap \<Rightarrow> nat \<Rightarrow> nat \<Rightarrow> bool" where
  "a2av_full cfg h0 r p \<longleftrightarrow>
     0 \<le> a2av_dst_off cfg r p \<and> 0 \<le> a2av_src_off cfg p r
     \<and> length (a2av_sent cfg h0 p r) = a2av_len cfg r p"

text \<open>The buffers of a group are separate allocations: no two ranks receive into the same
  block, and a block that some rank receives into is a send buffer only of that rank,
  and then as the very same pointer (the in-place call).\<close>

definition buffers_separate :: "nat \<Rightarrow> (nat \<Rightarrow> ptr) \<Rightarrow> (nat \<Rightarrow> ptr) \<Rightarrow> bool" where
  "buffers_separate n sbuf rcv \<longleftrightarrow>
     (\<forall>r<n. \<forall>p<n. rcv r \<noteq> Null \<and> blk_of (rcv r) = blk_of (rcv p) \<longrightarrow> r = p)
     \<and> (\<forall>r<n. \<forall>p<n. rcv r \<noteq> Null \<and> blk_of (rcv r) = blk_of (sbuf p) \<longrightarrow> r = p \<and> sbuf p = rcv p)"

text \<open>The group at the start of a call.\<close>

definition group_ok :: "config \<Rightarrow> heap \<Rightarrow> (nat \<Rightarrow> ptr) \<Rightarrow> (nat \<Rightarrow> ptr) \<Rightarrow> bool" where
  "group_ok cfg h0 sbuf rcv \<longleftrightarrow>
     comm_ok cfg \<and> heap_ok h0
     \<and> (\<forall>r<nranks cfg. user_ptr h0 (sbuf r) \<and> user_ptr h0 (rcv r))
     \<and> buffers_separate (nranks cfg) sbuf rcv"

text \<open>The pointer a rank publishes: its send buffer, or for an in-place call a scratch
  block allocated during the call that, while it lives, holds a copy of the first bytes
  of the receive buffer as they were at the start.\<close>

definition tmp_ok :: "heap \<Rightarrow> heap \<Rightarrow> ptr \<Rightarrow> ptr \<Rightarrow> ptr \<Rightarrow> bool" where
  "tmp_ok h0 h sbuf rcv tmp \<longleftrightarrow>
     (if sbuf = rcv
      then (case tmp of Null \<Rightarrow> False
            | Ptr k off \<Rightarrow>
                off = 0 \<and> fresh h0 \<le> k \<and> k < fresh h \<and> rcv \<noteq> Null \<and> 0 \<le> off_of rcv
                \<and> (\<forall>d. blocks h k = Some d \<longrightarrow>
                      (\<exists>T. d = segment (block_of h0 rcv) (nat (off_of rcv)) T
                           \<and> nat (off_of rcv) + T \<le> length (block_of h0 rcv))))
      else tmp = sbuf)"

text \<open>How many rounds of the ring a rank at a program point has completed.\<close>

fun progress :: "nat \<Rightarrow> pc \<Rightarrow> nat option" where
  "progress n (Poll i) = Some (nat (i - 1))"
| "progress n (Copy i) = Some (nat (i - 1))"
| "progress n Aborted = None"
| "progress n Faulted = None"
| "progress n Entry = Some 0"
| "progress n StoreDispls = Some 0"
| "progress n StoreBuffer = Some 0"
| "progress n StoreReady = Some 0"
| "progress n FenceA = Some 0"
| "progress n p = Some n"

text \<open>The receive block of a rank that has completed \<open>m\<close> rounds: every round was in
  bounds, and the block is the image of its initial contents under these rounds.\<close>

definition recv_ok ::
  "heap \<Rightarrow> heap \<Rightarrow> ptr \<Rightarrow> (nat \<Rightarrow> nat \<times> byte list) \<Rightarrow> (nat \<Rightarrow> bool) \<Rightarrow> nat \<Rightarrow> nat \<Rightarrow> nat \<Rightarrow> bool" where
  "recv_ok h0 h rcv wr full n r m \<longleftrightarrow>
     (\<forall>j. 1 \<le> j \<and> j \<le> m \<longrightarrow>
        full (ring_peer n r j)
        \<and> fst (wr (ring_peer n r j)) + length (snd (wr (ring_peer n r j)))
            \<le> length (block_of h0 rcv))
     \<and> (case rcv of Null \<Rightarrow> m = 0
        | Ptr b off \<Rightarrow>
            if m = 0 then blocks h b = blocks h0 b
            else blocks h b = Some (recv_image (block_of h0 rcv) wr n r m))"

text \<open>The invariant of a rank in a call that started from \<open>h0\<close> with the pool cursor at
  \<open>k0\<close>, for either engine: \<open>sbuf\<close>, \<open>rcv\<close> are its buffers, \<open>tab\<close> is its
  send-displacement table.\<close>

definition rank_inv ::
  "heap \<Rightarrow> nat \<Rightarrow> nat \<Rightarrow> ptr \<Rightarrow> ptr \<Rightarrow> int list option \<Rightarrow> (nat \<Rightarrow> nat \<times> byte list) \<Rightarrow> (nat \<Rightarrow> bool)
     \<Rightarrow> state \<Rightarrow> nat \<Rightarrow> bool" where
  "rank_inv h0 k0 n sbuf rcv tab wr full s r \<longleftrightarrow>
     (before_update (pc (ranks s r)) \<longrightarrow>
        slot_ptr (ranks s r) = k0 \<and> current_buffer_idx (ranks s r) = k0)
     \<and> (pc (ranks s r) = Entry \<longrightarrow> buffers (local_buffer s k0) r = Null)
     \<and> (buffers (local_buffer s k0) r \<noteq> Null \<longrightarrow>
          buffers (local_buffer s k0) r = sendbuf_tmp (ranks s r))
     \<and> (displs (local_buffer s k0) r \<noteq> None \<longrightarrow> displs (local_buffer s k0) r = tab)
     \<and> (buffers (local_buffer s k0) r \<noteq> Null \<or> running (pc (ranks s r)) \<longrightarrow>
          tmp_ok h0 (heap s) sbuf rcv (sendbuf_tmp (ranks s r)))
     \<and> (\<forall>m. progress n (pc (ranks s r)) = Some m \<longrightarrow> recv_ok h0 (heap s) rcv wr full n r m)"

text \<open>What a step of rank \<open>q\<close> leaves alone in the exchange slots: the entries of the other
  ranks.\<close>

definition slot_others :: "nat \<Rightarrow> state \<Rightarrow> state \<Rightarrow> bool" where
  "slot_others q s s' \<longleftrightarrow>
     (\<forall>k r. r \<noteq> q \<longrightarrow> buffers (local_buffer s' k) r = buffers (local_buffer s k) r
                    \<and> displs (local_buffer s' k) r = displs (local_buffer s k) r)"

text \<open>The invariants of the two engines.\<close>

definition a2a_rank_ok :: "config \<Rightarrow> heap \<Rightarrow> nat \<Rightarrow> state \<Rightarrow> nat \<Rightarrow> bool" where
  "a2a_rank_ok cfg h0 k0 s r \<longleftrightarrow>
     rank_inv h0 k0 (nranks cfg) (sendbuf (a2a cfg r)) (recvbuf (a2a cfg r)) None
       (a2a_write cfg h0 r) (a2a_full cfg h0 r) s r"

definition a2a_inv :: "config \<Rightarrow> heap \<Rightarrow> nat \<Rightarrow> state \<Rightarrow> bool" where
  "a2a_inv cfg h0 k0 s \<longleftrightarrow>
     heap_ok (heap s)
     \<and> frame_inv h0 (nranks cfg) (\<lambda>r. recvbuf (a2a cfg r)) (a2a_inplace cfg) s
     \<and> a2a_trace_inv cfg s
     \<and> (\<forall>r<nranks cfg. a2a_rank_ok cfg h0 k0 s r)"

definition a2av_rank_ok :: "config \<Rightarrow> heap \<Rightarrow> nat \<Rightarrow> state \<Rightarrow> nat \<Rightarrow> bool" where
  "a2av_rank_ok cfg h0 k0 s r \<longleftrightarrow>
     rank_inv h0 k0 (nranks cfg) (v_sendbuf (a2av cfg r)) (v_recvbuf (a2av cfg r))
       (v_sdispls (a2av cfg r)) (a2av_write cfg h0 r) (a2av_full cfg h0 r) s r"

definition a2av_inv :: "config \<Rightarrow> heap \<Rightarrow> nat \<Rightarrow> state \<Rightarrow> bool" where
  "a2av_inv cfg h0 k0 s \<longleftrightarrow>
     heap_ok (heap s)
     \<and> frame_inv h0 (nranks cfg) (\<lambda>r. v_recvbuf (a2av cfg r)) (a2av_inplace cfg) s
     \<and> a2av_trace_inv cfg s
     \<and> (\<forall>r<nranks cfg. a2av_rank_ok cfg h0 k0 s r)"

text \<open>Segment \<open>p\<close> of the receive buffer of rank \<open>r\<close> in a state, and the sizes a caller
  may pass: counts and extents are not negative.\<close>

definition a2a_result :: "config \<Rightarrow> state \<Rightarrow> nat \<Rightarrow> nat \<Rightarrow> byte list" where
  "a2a_result cfg t r p =
     segment (block_of (heap t) (recvbuf (a2a cfg r))) (nat (a2a_dst_off cfg r p)) (a2a_len cfg r)"

definition a2a_sizes_ok :: "config \<Rightarrow> bool" where
  "a2a_sizes_ok cfg \<longleftrightarrow>
     (\<forall>r<nranks cfg. 0 \<le> sendcount (a2a cfg r) \<and> 0 \<le> dtype_size cfg (sendtype (a2a cfg r)))"

text \<open>The same for the ragged engine, and the receive segments of a rank that do not
  overlap one another.\<close>

definition a2av_result :: "config \<Rightarrow> state \<Rightarrow> nat \<Rightarrow> nat \<Rightarrow> byte list" where
  "a2av_result cfg t r p =
     segment (block_of (heap t) (v_recvbuf (a2av cfg r))) (nat (a2av_dst_off cfg r p))
       (a2av_len cfg r p)"

definition a2av_recv_disjoint :: "config \<Rightarrow> nat \<Rightarrow> bool" where
  "a2av_recv_disjoint cfg r \<longleftrightarrow>
     (\<forall>p<nranks cfg. \<forall>q<nranks cfg. p \<noteq> q \<longrightarrow>
        nat (a2av_dst_off cfg r p) + a2av_len cfg r p \<le> nat (a2av_dst_off cfg r q)
        \<or> nat (a2av_dst_off cfg r q) + a2av_len cfg r q \<le> nat (a2av_dst_off cfg r p))"


text \<open>Two calls on the same input: in the first every rank passes one pointer as send and
  receive buffer, in the second two buffers; the lengths are the same and, segment by
  segment, the bytes to send are the same.\<close>

definition a2a_twin :: "config \<Rightarrow> heap \<Rightarrow> config \<Rightarrow> heap \<Rightarrow> bool" where
  "a2a_twin cfg h0 cfg' h0' \<longleftrightarrow>
     nranks cfg' = nranks cfg
     \<and> (\<forall>r<nranks cfg. a2a_inplace cfg r \<and> \<not> a2a_inplace cfg' r
            \<and> a2a_len cfg' r = a2a_len cfg r
            \<and> (\<forall>p<nranks cfg. a2a_sent cfg' h0' p r = a2a_sent cfg h0 p r))"

definition a2av_twin :: "config \<Rightarrow> heap \<Rightarrow> config \<Rightarrow> heap \<Rightarrow> bool" where
  "a2av_twin cfg h0 cfg' h0' \<longleftrightarrow>
     nranks cfg' = nranks cfg
     \<and> (\<forall>r<nranks cfg. a2av_inplace cfg r \<and> \<not> a2av_inplace cfg' r
            \<and> (\<forall>p<nranks cfg. a2av_len cfg' r p = a2av_len cfg r p
                   \<and> a2av_sent cfg' h0' p r = a2av_sent cfg h0 p r))"

section \<open>Example calls\<close>

text \<open>
  The example of section 8 of the spec: three ranks, one element of four bytes per
  segment; rank 0 sends 10, 20, 30, rank 1 sends 11, 21, 31 and rank 2 sends 12, 22, 32
  (little-endian). Blocks 0 to 2 are the send buffers and blocks 3 to 5 the receive
  buffers. For the ragged engine rank \<open>r\<close> sends \<open>p + 1\<close> bytes to rank \<open>p\<close> from the
  blocks 6 to 8 and receives \<open>r + 1\<close> bytes from every peer into the blocks 9 to 11.
\<close>

definition ex_heap :: heap where
  "ex_heap =
     \<lparr>blocks = (\<lambda>b. if b = 0 then Some [10, 0, 0, 0, 20, 0, 0, 0, 30, 0, 0, 0]
                    else if b = 1 then Some [11, 0, 0, 0, 21, 0, 0, 0, 31, 0, 0, 0]
                    else if b = 2 then Some [12, 0, 0, 0, 22, 0, 0, 0, 32, 0, 0, 0]
                    else if b < 6 then Some (replicate 12 0)
                    else if b = 6 then Some [1, 2, 2, 3, 3, 3]
                    else if b = 7 then Some [4, 5, 5, 6, 6, 6]
                    else if b = 8 then Some [7, 8, 8, 9, 9, 9]
                    else if b < 12 then Some (replicate 9 0)
                    else None),
      fresh = 12, avail = 64\<rparr>"

definition ex_cfg :: config where
  "ex_cfg =
     \<lparr>nranks = 3, dtype_size = (\<lambda>t. if t = 0 then 1 else 4), pool_depth = 2,
      comm = (\<lambda>r. \<lparr>global_rank = int r, global_comm_size = 3\<rparr>),
      a2a = (\<lambda>r. \<lparr>sendbuf = Ptr r 0, sendcount = 1, sendtype = 1,
                    recvbuf = Ptr (r + 3) 0, recvcount = 1, recvtype = 1\<rparr>),
      a2av = (\<lambda>r. \<lparr>v_sendbuf = Ptr (r + 6) 0, v_sendcounts = Some [1, 2, 3],
                     v_sdispls = Some [0, 1, 3], v_sendtype = 0,
                     v_recvbuf = Ptr (r + 9) 0,
                     v_recvcounts = Some [int r + 1, int r + 1, int r + 1],
                     v_rdispls = Some [0, int r + 1, 2 * int r + 2], v_recvtype = 0\<rparr>)\<rparr>"

text \<open>The same calls made in place: the data to send is already in the receive buffers
  (blocks 0 to 2 for the fixed-extent engine, blocks 6 to 8 for the ragged one).\<close>

definition ex_cfg_inplace :: config where
  "ex_cfg_inplace =
     ex_cfg\<lparr>a2a := (\<lambda>r. \<lparr>sendbuf = Ptr r 0, sendcount = 1, sendtype = 1,
                          recvbuf = Ptr r 0, recvcount = 1, recvtype = 1\<rparr>),
            a2av := (\<lambda>r. \<lparr>v_sendbuf = Ptr (r + 6) 0, v_sendcounts = Some [2, 2, 2],
                           v_sdispls = Some [0, 2, 4], v_sendtype = 0,
                           v_recvbuf = Ptr (r + 6) 0, v_recvcounts = Some [2, 2, 2],
                           v_rdispls = Some [0, 2, 4], v_recvtype = 0\<rparr>)\<rparr>"

text \<open>A schedule under which the three ranks run in lockstep to the end of a call.\<close>

definition ex_sched :: "nat list" where
  "ex_sched =
     [0, 1, 2,
      0, 1, 2,
      0, 1, 2,
      0, 1, 2,
      0, 1, 2,
      0, 1, 2,
      0, 1, 2,
      0, 1, 2,
      0, 1, 2,
      0, 1, 2,
      0, 1, 2,
      0, 1, 2,
      0, 1, 2,
      0, 1, 2,
      0, 1, 2,
      0, 1, 2,
      0, 1, 2]"

text \<open>A call that violates the preconditions: rank 0 passes a receive count (and, to the
  ragged engine, a receive type) that differs from what it sends.\<close>

definition ex_cfg_mismatch :: config where
  "ex_cfg_mismatch =
     ex_cfg\<lparr>a2a := (\<lambda>r. \<lparr>sendbuf = Ptr r 0, sendcount = 1, sendtype = 1,
                          recvbuf = Ptr (r + 3) 0, recvcount = 2, recvtype = 1\<rparr>),
            a2av := (\<lambda>r. \<lparr>v_sendbuf = Ptr (r + 6) 0, v_sendcounts = Some [1, 2, 3],
                           v_sdispls = Some [0, 1, 3], v_sendtype = 0,
                           v_recvbuf = Ptr (r + 9) 0,
                           v_recvcounts = Some [int r + 1, int r + 1, int r + 1],
                           v_rdispls = Some [0, int r + 1, 2 * int r + 2], v_recvtype = 1\<rparr>)\<rparr>"

text \<open>Two states of the ragged example in which rank 0 is about to poll rank 2: in the
  first only rank 0 has run, in the second rank 2 has published its table and its
  pointer before.\<close>

definition ex_polling_alone :: state where
  "ex_polling_alone = run (collAlltoallvLocal_step ex_cfg) [0, 0, 0, 0] (start_state ex_heap 0)"

definition ex_polling_published :: state where
  "ex_polling_published =
     run (collAlltoallvLocal_step ex_cfg) [2, 2, 2, 0, 0, 0, 0] (start_state ex_heap 0)"

text \<open>The calls of \<open>ex_cfg_inplace\<close> made with separate buffers: the same data is sent
  from the blocks 0 to 2 and 6 to 8, and received into the blocks 3 to 5 and 9 to 11.\<close>

definition ex_cfg_distinct :: config where
  "ex_cfg_distinct =
     ex_cfg\<lparr>a2av := (\<lambda>r. \<lparr>v_sendbuf = Ptr (r + 6) 0, v_sendcounts = Some [2, 2, 2],
                           v_sdispls = Some [0, 2, 4], v_sendtype = 0,
                           v_recvbuf = Ptr (r + 9) 0, v_recvcounts = Some [2, 2, 2],
                           v_rdispls = Some [0, 2, 4], v_recvtype = 0\<rparr>)\<rparr>"

section \<open>Auxiliary lemmas\<close>

lemma length_segment: "off + n \<le> length xs \<Longrightarrow> length (segment xs off n) = n"
  by (simp add: segment_def)

lemma length_overwrite:
  "off + length ys \<le> length xs \<Longrightarrow> length (overwrite xs off ys) = length xs"
  by (simp add: overwrite_def)

lemma nth_overwrite:
  assumes "off + length ys \<le> length xs" and "i < length xs"
  shows "overwrite xs off ys ! i =
           (if off \<le> i \<and> i < off + length ys then ys ! (i - off) else xs ! i)"
  using assms by (auto simp: overwrite_def nth_append min_def)

lemma nth_segment: "off + n \<le> length xs \<Longrightarrow> i < n \<Longrightarrow> segment xs off n ! i = xs ! (off + i)"
  by (simp add: segment_def)

lemma segment_overwrite_same:
  "off + length ys \<le> length xs \<Longrightarrow> segment (overwrite xs off ys) off (length ys) = ys"
  by (simp add: segment_def overwrite_def)

lemma segment_overwrite_other:
  assumes "off + length ys \<le> length xs"
    and "o2 + n \<le> off \<or> off + length ys \<le> o2"
  shows "segment (overwrite xs off ys) o2 n = segment xs o2 n"
proof (cases "o2 + n \<le> length xs")
  case True
  show ?thesis
  proof (rule nth_equalityI)
    show "length (segment (overwrite xs off ys) o2 n) = length (segment xs o2 n)"
      using assms True by (simp add: length_segment length_overwrite)
  next
    fix i assume "i < length (segment (overwrite xs off ys) o2 n)"
    then have i: "i < n" using assms True by (simp add: length_segment length_overwrite)
    then show "segment (overwrite xs off ys) o2 n ! i = segment xs o2 n ! i"
      using assms True by (auto simp: nth_segment length_overwrite nth_overwrite)
  qed
next
  case False
  then have "off + length ys \<le> o2" using assms by linarith
  then show ?thesis using assms by (simp add: segment_def overwrite_def)
qed

lemma segment_segment: "b + n \<le> m \<Longrightarrow> segment (segment xs a m) b n = segment xs (a + b) n"
  by (simp add: segment_def take_drop min_def add.commute)

lemma goto_simps [simp]:
  "heap (goto r p s) = heap s"
  "local_buffer (goto r p s) = local_buffer s"
  "barrier_count (goto r p s) = barrier_count s"
  "barrier_gen (goto r p s) = barrier_gen s"
  "trace (goto r p s) = trace s"
  "ranks (goto r p s) q = (if q = r then (ranks s r)\<lparr>pc := p\<rparr> else ranks s q)"
  by (simp_all add: goto_def set_rank_def)

lemma set_rank_simps [simp]:
  "heap (set_rank r f s) = heap s"
  "local_buffer (set_rank r f s) = local_buffer s"
  "barrier_count (set_rank r f s) = barrier_count s"
  "barrier_gen (set_rank r f s) = barrier_gen s"
  "trace (set_rank r f s) = trace s"
  "ranks (set_rank r f s) q = (if q = r then f (ranks s r) else ranks s q)"
  by (simp_all add: set_rank_def)

lemma emit_simps [simp]:
  "heap (emit r e s) = heap s"
  "local_buffer (emit r e s) = local_buffer s"
  "barrier_count (emit r e s) = barrier_count s"
  "barrier_gen (emit r e s) = barrier_gen s"
  "trace (emit r e s) = trace s @ [(r, e)]"
  "ranks (emit r e s) = ranks s"
  by (simp_all add: emit_def)

lemma set_slot_simps [simp]:
  "heap (set_slot k f s) = heap s"
  "local_buffer (set_slot k f s) j = (if j = k then f (local_buffer s k) else local_buffer s j)"
  "barrier_count (set_slot k f s) = barrier_count s"
  "barrier_gen (set_slot k f s) = barrier_gen s"
  "trace (set_slot k f s) = trace s"
  "ranks (set_slot k f s) = ranks s"
  by (simp_all add: set_slot_def)

lemma fault_simps [simp]:
  "heap (fault r s) = heap s"
  "local_buffer (fault r s) = local_buffer s"
  "barrier_count (fault r s) = barrier_count s"
  "barrier_gen (fault r s) = barrier_gen s"
  "trace (fault r s) = trace s @ [(r, EvFault)]"
  "ranks (fault r s) q = (if q = r then (ranks s r)\<lparr>pc := Faulted\<rparr> else ranks s q)"
  by (simp_all add: fault_def)

lemma abort_simps [simp]:
  "heap (abort r s) = heap s"
  "local_buffer (abort r s) = local_buffer s"
  "barrier_count (abort r s) = barrier_count s"
  "barrier_gen (abort r s) = barrier_gen s"
  "trace (abort r s) = trace s @ [(r, EvAbort)]"
  "ranks (abort r s) q = (if q = r then (ranks s r)\<lparr>pc := Aborted\<rparr> else ranks s q)"
  by (simp_all add: abort_def)

lemma collUpdateBuffer_simps [simp]:
  "heap (collUpdateBuffer cfg r s) = heap s"
  "barrier_count (collUpdateBuffer cfg r s) = barrier_count s"
  "barrier_gen (collUpdateBuffer cfg r s) = barrier_gen s"
  "trace (collUpdateBuffer cfg r s) = trace s"
  "q \<noteq> r \<Longrightarrow> ranks (collUpdateBuffer cfg r s) q = ranks s q"
  "pc (ranks (collUpdateBuffer cfg r s) q) = pc (ranks s q)"
  "sendbuf_tmp (ranks (collUpdateBuffer cfg r s) q) = sendbuf_tmp (ranks s q)"
  by (simp_all add: collUpdateBuffer_def Let_def)

lemma barrier_simps [simp]:
  "heap (collBarrierLocal_arrive cfg r s) = heap s"
  "local_buffer (collBarrierLocal_arrive cfg r s) = local_buffer s"
  "trace (collBarrierLocal_arrive cfg r s) = trace s @ [(r, EvBarrierEnter)]"
  "ranks (collBarrierLocal_arrive cfg r s) q =
     (if q = r then (ranks s r)\<lparr>pc := BarrierWait (barrier_gen s)\<rparr> else ranks s q)"
  "heap (collBarrierLocal_wait r g nx s) = heap s"
  "local_buffer (collBarrierLocal_wait r g nx s) = local_buffer s"
  "ranks (collBarrierLocal_wait r g nx s) q =
     (if q = r \<and> barrier_gen s \<noteq> g then (ranks s r)\<lparr>pc := nx\<rparr> else ranks s q)"
  by (simp_all add: collBarrierLocal_arrive_def collBarrierLocal_wait_def)

lemma events_simps [simp]:
  "events r [] = []"
  "events r (tr @ [(q, e)]) = (if q = r \<and> \<not> is_spin e then events r tr @ [e] else events r tr)"
  by (simp_all add: events_def)

lemma recvfrom_ring:
  assumes "comm_ok cfg" "r < nranks cfg" "1 \<le> i" "i \<le> int (nranks cfg)"
    and "recvfrom_global_rank (comm cfg r) i = Some p"
  shows "p = ring_peer (nranks cfg) r (nat i)" and "p < nranks cfg"
proof -
  let ?n = "int (nranks cfg)"
  have gr: "global_rank (comm cfg r) = int r" "global_comm_size (comm cfg r) = ?n"
    using assms(1,2) by (simp_all add: comm_ok_def)
  have u: "0 \<le> int r + ?n - i" using assms by linarith
  have n: "0 < ?n" using assms by linarith
  have rem: "int_rem (int r + ?n - i) ?n = Some ((int r + ?n - i) mod ?n)"
  proof (cases "int r + ?n - i = 0")
    case True then show ?thesis using n by (simp add: int_rem_def)
  next
    case False
    then have "0 < int r + ?n - i" using u by linarith
    then show ?thesis using n
      by (simp add: int_rem_def minus_mult_div_eq_mod)
  qed
  have m: "0 \<le> (int r + ?n - i) mod ?n" using n by simp
  have "recvfrom_global_rank (comm cfg r) i =
          (if int_ok (int r + ?n) \<and> int_ok (int r + ?n - i)
           then Some (nat ((int r + ?n - i) mod ?n)) else None)"
    unfolding recvfrom_global_rank_def gr int_add_def int_sub_def
    by (simp add: rem index_of_def m)
  with assms(5) have "p = nat ((int r + ?n - i) mod ?n)"
    by (simp split: if_splits)
  with m have p: "int p = (int r + ?n - i) mod ?n" by simp
  have "int r + ?n - i = int (r + nranks cfg - nat i)" using assms u by linarith
  with p have "int p = int (r + nranks cfg - nat i) mod int (nranks cfg)"
    by (simp only:)
  then have "int p = int ((r + nranks cfg - nat i) mod nranks cfg)"
    by (simp only: zmod_int)
  then show "p = ring_peer (nranks cfg) r (nat i)" by (simp add: ring_peer_def)
  then show "p < nranks cfg" using n by (simp add: ring_peer_def)
qed

lemma others_same_entry: "others_same q s (alltoall_entry cfg q s)"
  by (simp add: others_same_def alltoall_entry_def Let_def split: option.splits prod.splits)

lemma others_same_store_buffer: "others_same q s (alltoall_store_buffer cfg q s)"
  by (simp add: others_same_def alltoall_store_buffer_def Let_def split: option.splits)

lemma others_same_store_ready: "others_same q s (alltoall_store_ready cfg q s)"
  by (simp add: others_same_def alltoall_store_ready_def Let_def split: option.splits)

lemma others_same_poll: "others_same q s (alltoall_poll cfg q i s)"
  by (simp add: others_same_def alltoall_poll_def Let_def split: option.splits)

lemma others_same_copy: "others_same q s (alltoall_copy cfg q i s)"
  by (simp add: others_same_def alltoall_copy_def Let_def split: option.splits)

lemma others_same_free: "others_same q s (free_tmp b q nx s)"
  by (simp add: others_same_def free_tmp_def split: option.splits)

lemma others_same_barrier:
  "others_same q s (collBarrierLocal_arrive cfg q s)"
  "others_same q s (collBarrierLocal_wait q g nx s)"
  by (simp_all add: others_same_def collBarrierLocal_wait_def collBarrierLocal_arrive_def)

lemma others_same_misc:
  "others_same q s s"
  "others_same q s (emit q e (goto q p s))"
  "others_same q s (emit q e (goto q p (collUpdateBuffer cfg q s)))"
  by (simp_all add: others_same_def)

lemma alltoall_step_others: "others_same q s (collAlltoallLocal_step cfg q s)"
  by (simp add: collAlltoallLocal_step_def others_same_entry others_same_store_buffer
        others_same_store_ready others_same_poll others_same_copy others_same_free
        others_same_barrier others_same_misc split: pc.splits)

lemma others_same_v_entry: "others_same q s (alltoallv_entry cfg q s)"
  by (simp add: others_same_def alltoallv_entry_def Let_def split: option.splits prod.splits)

lemma others_same_v_store_displs: "others_same q s (alltoallv_store_displs cfg q s)"
  by (simp add: others_same_def alltoallv_store_displs_def Let_def split: option.splits)

lemma others_same_v_store_buffer: "others_same q s (alltoallv_store_buffer cfg q s)"
  by (simp add: others_same_def alltoallv_store_buffer_def Let_def split: option.splits)

lemma others_same_v_poll: "others_same q s (alltoallv_poll cfg q i s)"
  by (simp add: others_same_def alltoallv_poll_def Let_def split: option.splits)

lemma others_same_v_copy: "others_same q s (alltoallv_copy cfg q i s)"
  by (simp add: others_same_def alltoallv_copy_def Let_def split: option.splits)

lemma alltoallv_step_others: "others_same q s (collAlltoallvLocal_step cfg q s)"
  by (simp add: collAlltoallvLocal_step_def others_same_v_entry others_same_v_store_buffer
        others_same_v_store_displs others_same_v_poll others_same_v_copy others_same_free
        others_same_barrier others_same_misc split: pc.splits)

lemma rounds_Suc:
  "rounds n r len (Suc m) =
     rounds n r len m @ [EvReady (ring_peer n r (Suc m)),
                         EvCopy (ring_peer n r (Suc m)) (len (ring_peer n r (Suc m)))]"
  by (simp add: rounds_def)

lemma rounds_0 [simp]: "rounds n r len 0 = []"
  by (simp add: rounds_def)

lemma trace_ok_faultI:
  assumes "a2a_history cfg r tmp0 p0 = Some h" "before_update p0" "p0 \<noteq> Update"
  shows "a2a_trace_ok cfg r tmp Faulted (h @ [EvFault])"
  using assms by (auto simp: a2a_trace_ok_def)

lemma rank_trace_faultI:
  assumes "a2a_rank_trace cfg s r" "pc (ranks s r) = p0" "before_update p0" "p0 \<noteq> Update"
    and "trace s' = trace s" "ranks s' = ranks s"
  shows "a2a_rank_trace cfg (fault r s') r"
proof -
  from assms(1-4) have "a2a_history cfg r (sendbuf_tmp (ranks s r)) p0 = Some (events r (trace s))"
    by (auto simp: a2a_rank_trace_def a2a_trace_ok_def split: if_splits)
  then show ?thesis using assms(3-)
    by (auto simp: a2a_rank_trace_def a2a_trace_ok_def)
qed

lemma heap_update_same [simp]: "s\<lparr>heap := heap s\<rparr> = s"
  by simp

lemma alltoall_scratch_bytes_eq:
  "alltoall_scratch_bytes cfg r = Some b \<Longrightarrow> b = a2a_bytes cfg r"
  by (auto simp: alltoall_scratch_bytes_def a2a_bytes_def int_mul_def split: option.splits if_splits)

lemma alltoall_plan_SomeD:
  assumes "comm_ok cfg" "r < nranks cfg" "1 \<le> i" "i \<le> int (nranks cfg)"
    and "alltoall_plan cfg r i = Some (peer, soff, doff, len)"
  shows "peer = ring_peer (nranks cfg) r (nat i)" "peer < nranks cfg"
    "soff = int r * dtype_size cfg (sendtype (a2a cfg r)) * sendcount (a2a cfg r)"
    "doff = int peer * dtype_size cfg (recvtype (a2a cfg r)) * recvcount (a2a cfg r)"
    "len = a2a_len cfg r"
    "int_ok (sendcount (a2a cfg r) * dtype_size cfg (sendtype (a2a cfg r)))"
proof -
  have gr: "global_rank (comm cfg r) = int r"
    using assms(1,2) by (simp add: comm_ok_def)
  from assms(5) obtain pr where pr: "recvfrom_global_rank (comm cfg r) i = Some pr"
    by (auto simp: alltoall_plan_def Let_def split: option.splits)
  from assms(5) pr have rest: "pr = peer"
    "soff = int r * dtype_size cfg (sendtype (a2a cfg r)) * sendcount (a2a cfg r)"
    "doff = int peer * dtype_size cfg (recvtype (a2a cfg r)) * recvcount (a2a cfg r)"
    "len = a2a_len cfg r"
    "int_ok (sendcount (a2a cfg r) * dtype_size cfg (sendtype (a2a cfg r)))"
    by (auto simp: alltoall_plan_def Let_def gr ptrdiff_mul_def int_mul_def a2a_len_def
             split: option.splits if_splits)
  with pr recvfrom_ring[OF assms(1-4)] show
    "peer = ring_peer (nranks cfg) r (nat i)" "peer < nranks cfg" by simp_all
  from rest show
    "soff = int r * dtype_size cfg (sendtype (a2a cfg r)) * sendcount (a2a cfg r)"
    "doff = int peer * dtype_size cfg (recvtype (a2a cfg r)) * recvcount (a2a cfg r)"
    "len = a2a_len cfg r"
    "int_ok (sendcount (a2a cfg r) * dtype_size cfg (sendtype (a2a cfg r)))"
    by simp_all
qed

lemma rank_trace_entry:
  assumes "r < nranks cfg" "pc (ranks s r) = Entry" "a2a_rank_trace cfg s r"
  shows "a2a_rank_trace cfg (alltoall_entry cfg r s) r"
proof -
  have ev: "events r (trace s) = []"
    using assms by (simp add: a2a_rank_trace_def a2a_trace_ok_def)
  have f: "a2a_rank_trace cfg (fault r s') r" if "trace s' = trace s" "ranks s' = ranks s" for s'
    using rank_trace_faultI[OF assms(3,2) _ _ that] by simp
  show ?thesis
  proof (cases "alltoall_scratch_bytes cfg r")
    case None
    then show ?thesis using assms(2) ev f[of s]
      by (simp add: alltoall_entry_def Let_def a2a_rank_trace_def a2a_trace_ok_def a2a_pre_def
            a2a_inplace_def)
  next
    case (Some b)
    note b = alltoall_scratch_bytes_eq[OF Some]
    show ?thesis using assms(2) ev Some b f
      by (simp add: alltoall_entry_def Let_def a2a_rank_trace_def[where s = "emit _ _ _"]
            a2a_rank_trace_def[where s = "goto _ _ _"] a2a_rank_trace_def[where s = "abort _ _"]
            a2a_trace_ok_def a2a_pre_def a2a_inplace_def
          split: prod.splits option.splits)
  qed
qed

lemma rank_trace_store_buffer:
  assumes "pc (ranks s r) = StoreBuffer" "a2a_rank_trace cfg s r"
  shows "a2a_rank_trace cfg (alltoall_store_buffer cfg r s) r"
proof -
  have f: "a2a_rank_trace cfg (fault r s) r"
    using rank_trace_faultI[OF assms(2,1)] by simp
  show ?thesis using assms f
    by (simp add: alltoall_store_buffer_def Let_def a2a_rank_trace_def[where s = "emit _ _ _"]
          a2a_rank_trace_def[where s = s] a2a_trace_ok_def split: option.splits)
qed

lemma rank_trace_store_ready:
  assumes "pc (ranks s r) = StoreReady" "a2a_rank_trace cfg s r"
  shows "a2a_rank_trace cfg (alltoall_store_ready cfg r s) r"
proof -
  have f: "a2a_rank_trace cfg (fault r s) r"
    using rank_trace_faultI[OF assms(2,1)] by simp
  show ?thesis using assms f
    by (simp add: alltoall_store_ready_def Let_def a2a_rank_trace_def[where s = "emit _ _ _"]
          a2a_rank_trace_def[where s = s] a2a_trace_ok_def split: option.splits)
qed

lemma rank_trace_poll:
  assumes "comm_ok cfg" "r < nranks cfg" "pc (ranks s r) = Poll i" "a2a_rank_trace cfg s r"
  shows "a2a_rank_trace cfg (alltoall_poll cfg r i s) r"
proof -
  let ?tmp = "sendbuf_tmp (ranks s r)"
  from assms(3,4) have i: "1 \<le> i" "i \<le> int (nranks cfg) + 1"
    and ev: "events r (trace s) = a2a_loop cfg r ?tmp (nat (i - 1))"
    by (auto simp: a2a_rank_trace_def a2a_trace_ok_def split: if_splits)
  have sz: "global_comm_size (comm cfg r) = int (nranks cfg)"
    using assms(1,2) by (simp add: comm_ok_def)
  have f: "a2a_rank_trace cfg (fault r s) r"
    using rank_trace_faultI[OF assms(4,3)] by simp
  show ?thesis
  proof (cases "int_add (global_comm_size (comm cfg r)) 1")
    case None
    then show ?thesis using f by (simp add: alltoall_poll_def)
  next
    case (Some bound)
    then have b: "bound = int (nranks cfg) + 1"
      by (auto simp: int_add_def sz split: if_splits)
    show ?thesis
    proof (cases "i < bound")
      case False
      then have "nat (i - 1) = nranks cfg" using i b by linarith
      then show ?thesis using assms(3) Some False ev
        by (simp add: alltoall_poll_def a2a_rank_trace_def a2a_trace_ok_def)
    next
      case True
      then have i': "i \<le> int (nranks cfg)" using b by simp
      show ?thesis
      proof (cases "recvfrom_global_rank (comm cfg r) i")
        case None
        then show ?thesis using Some True f by (simp add: alltoall_poll_def)
      next
        case (Some peer)
        then have "peer = ring_peer (nranks cfg) r (nat i)"
          using recvfrom_ring(1)[OF assms(1,2) i(1) i'] by simp
        then show ?thesis using assms(3,4) \<open>int_add _ _ = Some bound\<close> True Some ev i i'
          by (simp add: alltoall_poll_def a2a_rank_trace_def a2a_trace_ok_def)
      qed
    qed
  qed
qed

lemma rank_trace_copy:
  assumes "comm_ok cfg" "r < nranks cfg" "pc (ranks s r) = Copy i" "a2a_rank_trace cfg s r"
  shows "a2a_rank_trace cfg (alltoall_copy cfg r i s) r"
proof -
  let ?tmp = "sendbuf_tmp (ranks s r)"
  let ?p = "ring_peer (nranks cfg) r (nat i)"
  from assms(3,4) have i: "1 \<le> i" "i \<le> int (nranks cfg)"
    and ev: "events r (trace s) = a2a_loop cfg r ?tmp (nat (i - 1)) @ [EvReady ?p]"
    by (auto simp: a2a_rank_trace_def a2a_trace_ok_def split: if_splits)
  have f: "a2a_rank_trace cfg (fault r s') r" if "trace s' = trace s" "ranks s' = ranks s" for s'
    using rank_trace_faultI[OF assms(4,3) _ _ that] by simp
  have n: "nat i = Suc (nat (i - 1))" using i by linarith
  have nx: "a2a_loop cfg r ?tmp (nat i) =
              a2a_loop cfg r ?tmp (nat (i - 1)) @ [EvReady ?p, EvCopy ?p (a2a_len cfg r)]"
    unfolding a2a_loop_def by (subst n, subst rounds_Suc) (simp add: n[symmetric])
  show ?thesis
  proof (cases "alltoall_plan cfg r i")
    case None
    then show ?thesis using f[of s] by (simp add: alltoall_copy_def)
  next
    case (Some pl)
    obtain peer soff doff len where pl: "pl = (peer, soff, doff, len)" by (cases pl) auto
    note d = alltoall_plan_SomeD[OF assms(1,2) i Some[unfolded pl]]
    show ?thesis
    proof (cases "memcpy (heap s) (ptr_add (recvbuf (a2a cfg r)) doff)
                    (ptr_add (buffers (cur_slot s r) peer) soff) len")
      case None
      then show ?thesis using Some pl f[of s] by (simp add: alltoall_copy_def)
    next
      case (Some h)
      show ?thesis
      proof (cases "int_add i 1")
        case None
        then show ?thesis using \<open>alltoall_plan cfg r i = Some pl\<close> pl Some f[of "s\<lparr>heap := h\<rparr>"]
          by (simp add: alltoall_copy_def)
      next
        case (Some i')
        then have i': "i' = i + 1" by (auto simp: int_add_def split: if_splits)
        show ?thesis
          using \<open>alltoall_plan cfg r i = Some pl\<close> pl \<open>memcpy _ _ _ _ = Some h\<close> Some i' ev nx i
            d(1,5)
          by (simp add: alltoall_copy_def a2a_rank_trace_def a2a_trace_ok_def)
      qed
    qed
  qed
qed

lemma rank_trace_free:
  assumes "pc (ranks s r) = FreeTmp" "a2a_rank_trace cfg s r"
  shows "a2a_rank_trace cfg (free_tmp (sendbuf (a2a cfg r) = recvbuf (a2a cfg r)) r Update s) r"
proof -
  have f: "a2a_rank_trace cfg (fault r s) r"
    using rank_trace_faultI[OF assms(2,1)] by simp
  show ?thesis using assms f
    by (simp add: free_tmp_def a2a_rank_trace_def[where s = "emit _ _ _"]
          a2a_rank_trace_def[where s = "goto _ _ _"]
          a2a_rank_trace_def[where s = s] a2a_trace_ok_def a2a_post_def a2a_inplace_def
        split: option.splits)
qed

lemma rank_trace_step:
  assumes "comm_ok cfg" "r < nranks cfg" "a2a_rank_trace cfg s r"
  shows "a2a_rank_trace cfg (collAlltoallLocal_step cfg r s) r"
proof (cases "pc (ranks s r)")
  case Entry
  then show ?thesis using assms rank_trace_entry by (simp add: collAlltoallLocal_step_def)
next
  case StoreDispls
  then show ?thesis using assms by (simp add: collAlltoallLocal_step_def)
next
  case StoreBuffer
  then show ?thesis using assms rank_trace_store_buffer by (simp add: collAlltoallLocal_step_def)
next
  case StoreReady
  then show ?thesis using assms rank_trace_store_ready by (simp add: collAlltoallLocal_step_def)
next
  case FenceA
  then show ?thesis using assms
    by (simp add: collAlltoallLocal_step_def a2a_rank_trace_def a2a_trace_ok_def a2a_loop_def)
next
  case (Poll i)
  then show ?thesis using assms rank_trace_poll by (simp add: collAlltoallLocal_step_def)
next
  case (Copy i)
  then show ?thesis using assms rank_trace_copy by (simp add: collAlltoallLocal_step_def)
next
  case BarrierEnter
  then show ?thesis using assms
    by (simp add: collAlltoallLocal_step_def a2a_rank_trace_def a2a_trace_ok_def)
next
  case (BarrierWait g)
  then show ?thesis using assms
    by (simp add: collAlltoallLocal_step_def a2a_rank_trace_def a2a_trace_ok_def
          collBarrierLocal_wait_def)
next
  case FreeTmp
  then show ?thesis using assms rank_trace_free by (simp add: collAlltoallLocal_step_def)
next
  case FenceB
  then show ?thesis using assms
    by (simp add: collAlltoallLocal_step_def a2a_rank_trace_def a2a_trace_ok_def)
next
  case Update
  then show ?thesis using assms
    by (simp add: collAlltoallLocal_step_def a2a_rank_trace_def a2a_trace_ok_def)
next
  case Ret
  then show ?thesis using assms
    by (simp add: collAlltoallLocal_step_def a2a_rank_trace_def a2a_trace_ok_def)
next
  case (Returned x)
  then show ?thesis using assms by (simp add: collAlltoallLocal_step_def)
next
  case Aborted
  then show ?thesis using assms by (simp add: collAlltoallLocal_step_def)
next
  case Faulted
  then show ?thesis using assms by (simp add: collAlltoallLocal_step_def)
qed

lemma rank_trace_other:
  assumes "q \<noteq> r" "a2a_rank_trace cfg s r"
  shows "a2a_rank_trace cfg (collAlltoallLocal_step cfg q s) r"
  using assms alltoall_step_others[of q s cfg]
  by (simp add: a2a_rank_trace_def others_same_def)

lemma a2a_trace_inv_step:
  assumes "comm_ok cfg" "a2a_trace_inv cfg s"
  shows "a2a_trace_inv cfg (collAlltoallLocal_step cfg q s)"
  unfolding a2a_trace_inv_def a2a_rank_trace_def[symmetric]
proof (intro allI impI)
  fix r assume r: "r < nranks cfg"
  then have "a2a_rank_trace cfg s r"
    using assms(2) by (simp add: a2a_trace_inv_def a2a_rank_trace_def)
  then show "a2a_rank_trace cfg (collAlltoallLocal_step cfg q s) r"
    using rank_trace_step[OF assms(1) r] rank_trace_other by (cases "q = r") auto
qed

lemma a2a_trace_inv_run:
  assumes "comm_ok cfg" "a2a_trace_inv cfg s"
  shows "a2a_trace_inv cfg (run (collAlltoallLocal_step cfg) sched s)"
  using assms(2) by (induction sched arbitrary: s) (simp_all add: a2a_trace_inv_step[OF assms(1)])

lemma a2a_trace_inv_start: "a2a_trace_inv cfg (start_state h k)"
  by (simp add: a2a_trace_inv_def a2a_trace_ok_def start_state_def)

lemma arr_read_elem:
  "arr_read t (int i) = Some v \<Longrightarrow> v = elem t i \<and> (\<exists>xs. t = Some xs \<and> i < length xs)"
  by (auto simp: arr_read_def elem_def split: option.splits if_splits)

lemma arr_read_elem': "arr_read t j = Some v \<Longrightarrow> v = elem t (nat j) \<and> 0 \<le> j"
  by (auto simp: arr_read_def elem_def split: option.splits if_splits)

lemma v_rank_trace_faultI:
  assumes "a2av_rank_trace cfg s r" "pc (ranks s r) = p0" "before_update p0" "p0 \<noteq> Update"
    and "trace s' = trace s" "ranks s' = ranks s"
  shows "a2av_rank_trace cfg (fault r s') r"
proof -
  from assms(1-4) have "a2av_history cfg r (sendbuf_tmp (ranks s r)) p0 = Some (events r (trace s))"
    by (auto simp: a2av_rank_trace_def a2av_trace_ok_def split: if_splits)
  then show ?thesis using assms(3-)
    by (auto simp: a2av_rank_trace_def a2av_trace_ok_def)
qed

lemma alltoallv_scratch_bytes_eq:
  "alltoallv_scratch_bytes cfg r = Some b \<Longrightarrow> b = a2av_bytes cfg r"
  by (auto simp: alltoallv_scratch_bytes_def a2av_bytes_def int_mul_def int_add_def int_sub_def
        Let_def dest!: arr_read_elem' split: option.splits if_splits)

lemma alltoallv_plan_SomeD:
  assumes "comm_ok cfg" "r < nranks cfg" "1 \<le> i" "i \<le> int (nranks cfg)"
    and "alltoallv_plan cfg r i pub = Some (peer, soff, doff, len)"
  shows "peer = ring_peer (nranks cfg) r (nat i)" "peer < nranks cfg"
    "soff = elem (pub peer) r * dtype_size cfg (v_sendtype (a2av cfg r))"
    "doff = elem (v_rdispls (a2av cfg r)) peer * dtype_size cfg (v_recvtype (a2av cfg r))"
    "len = a2av_len cfg r peer"
    "int_ok (elem (v_recvcounts (a2av cfg r)) peer * dtype_size cfg (v_recvtype (a2av cfg r)))"
    "pub peer \<noteq> None"
proof -
  have gr: "global_rank (comm cfg r) = int r"
    using assms(1,2) by (simp add: comm_ok_def)
  from assms(5) obtain pr where pr: "recvfrom_global_rank (comm cfg r) i = Some pr"
    by (auto simp: alltoallv_plan_def Let_def split: option.splits)
  from assms(5) pr have rest: "pr = peer"
    "soff = elem (pub peer) r * dtype_size cfg (v_sendtype (a2av cfg r))"
    "doff = elem (v_rdispls (a2av cfg r)) peer * dtype_size cfg (v_recvtype (a2av cfg r))"
    "len = a2av_len cfg r peer"
    "int_ok (elem (v_recvcounts (a2av cfg r)) peer * dtype_size cfg (v_recvtype (a2av cfg r)))"
    "pub peer \<noteq> None"
    by (auto simp: alltoallv_plan_def Let_def gr ptrdiff_mul_def int_mul_def a2av_len_def
             dest!: arr_read_elem split: option.splits if_splits)
  with pr recvfrom_ring[OF assms(1-4)] show
    "peer = ring_peer (nranks cfg) r (nat i)" "peer < nranks cfg" by simp_all
  from rest show
    "soff = elem (pub peer) r * dtype_size cfg (v_sendtype (a2av cfg r))"
    "doff = elem (v_rdispls (a2av cfg r)) peer * dtype_size cfg (v_recvtype (a2av cfg r))"
    "len = a2av_len cfg r peer"
    "int_ok (elem (v_recvcounts (a2av cfg r)) peer * dtype_size cfg (v_recvtype (a2av cfg r)))"
    "pub peer \<noteq> None"
    by simp_all
qed

lemma v_rank_trace_entry:
  assumes "r < nranks cfg" "pc (ranks s r) = Entry" "a2av_rank_trace cfg s r"
  shows "a2av_rank_trace cfg (alltoallv_entry cfg r s) r"
proof -
  have ev: "events r (trace s) = []"
    using assms by (simp add: a2av_rank_trace_def a2av_trace_ok_def)
  have f: "a2av_rank_trace cfg (fault r s') r" if "trace s' = trace s" "ranks s' = ranks s" for s'
    using v_rank_trace_faultI[OF assms(3,2) _ _ that] by simp
  show ?thesis
  proof (cases "alltoallv_scratch_bytes cfg r")
    case None
    then show ?thesis using assms(2) ev f[of s]
      by (simp add: alltoallv_entry_def Let_def a2av_rank_trace_def a2av_trace_ok_def a2av_pre_def
            a2av_inplace_def)
  next
    case (Some b)
    note b = alltoallv_scratch_bytes_eq[OF Some]
    show ?thesis using assms(2) ev Some b f
      by (simp add: alltoallv_entry_def Let_def a2av_rank_trace_def[where s = "emit _ _ _"]
            a2av_rank_trace_def[where s = "goto _ _ _"] a2av_rank_trace_def[where s = "abort _ _"]
            a2av_trace_ok_def a2av_pre_def a2av_inplace_def
          split: prod.splits option.splits)
  qed
qed

lemma v_rank_trace_store_displs:
  assumes "pc (ranks s r) = StoreDispls" "a2av_rank_trace cfg s r"
  shows "a2av_rank_trace cfg (alltoallv_store_displs cfg r s) r"
proof -
  have f: "a2av_rank_trace cfg (fault r s) r"
    using v_rank_trace_faultI[OF assms(2,1)] by simp
  show ?thesis using assms f
    by (simp add: alltoallv_store_displs_def Let_def a2av_rank_trace_def[where s = "emit _ _ _"]
          a2av_rank_trace_def[where s = s] a2av_trace_ok_def split: option.splits)
qed

lemma v_rank_trace_store_buffer:
  assumes "pc (ranks s r) = StoreBuffer" "a2av_rank_trace cfg s r"
  shows "a2av_rank_trace cfg (alltoallv_store_buffer cfg r s) r"
proof -
  have f: "a2av_rank_trace cfg (fault r s) r"
    using v_rank_trace_faultI[OF assms(2,1)] by simp
  show ?thesis using assms f
    by (simp add: alltoallv_store_buffer_def Let_def a2av_rank_trace_def[where s = "emit _ _ _"]
          a2av_rank_trace_def[where s = s] a2av_trace_ok_def split: option.splits)
qed

lemma v_rank_trace_poll:
  assumes "comm_ok cfg" "r < nranks cfg" "pc (ranks s r) = Poll i" "a2av_rank_trace cfg s r"
  shows "a2av_rank_trace cfg (alltoallv_poll cfg r i s) r"
proof -
  let ?tmp = "sendbuf_tmp (ranks s r)"
  from assms(3,4) have i: "1 \<le> i" "i \<le> int (nranks cfg) + 1"
    and ev: "events r (trace s) = a2av_loop cfg r ?tmp (nat (i - 1))"
    by (auto simp: a2av_rank_trace_def a2av_trace_ok_def split: if_splits)
  have sz: "global_comm_size (comm cfg r) = int (nranks cfg)"
    using assms(1,2) by (simp add: comm_ok_def)
  have f: "a2av_rank_trace cfg (fault r s) r"
    using v_rank_trace_faultI[OF assms(4,3)] by simp
  show ?thesis
  proof (cases "int_add (global_comm_size (comm cfg r)) 1")
    case None
    then show ?thesis using f by (simp add: alltoallv_poll_def)
  next
    case (Some bound)
    then have b: "bound = int (nranks cfg) + 1"
      by (auto simp: int_add_def sz split: if_splits)
    show ?thesis
    proof (cases "i < bound")
      case False
      then have "nat (i - 1) = nranks cfg" using i b by linarith
      then show ?thesis using assms(3) Some False ev
        by (simp add: alltoallv_poll_def a2av_rank_trace_def a2av_trace_ok_def)
    next
      case True
      then have i': "i \<le> int (nranks cfg)" using b by simp
      show ?thesis
      proof (cases "recvfrom_global_rank (comm cfg r) i")
        case None
        then show ?thesis using Some True f by (simp add: alltoallv_poll_def)
      next
        case (Some peer)
        then have "peer = ring_peer (nranks cfg) r (nat i)"
          using recvfrom_ring(1)[OF assms(1,2) i(1) i'] by simp
        then show ?thesis using assms(3,4) \<open>int_add _ _ = Some bound\<close> True Some ev i i'
          by (simp add: alltoallv_poll_def a2av_rank_trace_def a2av_trace_ok_def)
      qed
    qed
  qed
qed

lemma v_rank_trace_copy:
  assumes "comm_ok cfg" "r < nranks cfg" "pc (ranks s r) = Copy i" "a2av_rank_trace cfg s r"
  shows "a2av_rank_trace cfg (alltoallv_copy cfg r i s) r"
proof -
  let ?tmp = "sendbuf_tmp (ranks s r)"
  let ?p = "ring_peer (nranks cfg) r (nat i)"
  from assms(3,4) have i: "1 \<le> i" "i \<le> int (nranks cfg)"
    and ev: "events r (trace s) = a2av_loop cfg r ?tmp (nat (i - 1)) @ [EvReady ?p]"
    by (auto simp: a2av_rank_trace_def a2av_trace_ok_def split: if_splits)
  have f: "a2av_rank_trace cfg (fault r s') r" if "trace s' = trace s" "ranks s' = ranks s" for s'
    using v_rank_trace_faultI[OF assms(4,3) _ _ that] by simp
  have n: "nat i = Suc (nat (i - 1))" using i by linarith
  have nx: "a2av_loop cfg r ?tmp (nat i) =
              a2av_loop cfg r ?tmp (nat (i - 1)) @ [EvReady ?p, EvCopy ?p (a2av_len cfg r ?p)]"
    unfolding a2av_loop_def by (subst n, subst rounds_Suc) (simp add: n[symmetric])
  show ?thesis
  proof (cases "alltoallv_plan cfg r i (displs (cur_slot s r))")
    case None
    then show ?thesis using f[of s] by (simp add: alltoallv_copy_def)
  next
    case (Some pl)
    obtain peer soff doff len where pl: "pl = (peer, soff, doff, len)" by (cases pl) auto
    note d = alltoallv_plan_SomeD[OF assms(1,2) i Some[unfolded pl]]
    show ?thesis
    proof (cases "memcpy (heap s) (ptr_add (v_recvbuf (a2av cfg r)) doff)
                    (ptr_add (buffers (cur_slot s r) peer) soff) len")
      case None
      then show ?thesis using Some pl f[of s] by (simp add: alltoallv_copy_def)
    next
      case (Some h)
      show ?thesis
      proof (cases "int_add i 1")
        case None
        then show ?thesis
          using \<open>alltoallv_plan cfg r i _ = Some pl\<close> pl Some f[of "s\<lparr>heap := h\<rparr>"]
          by (simp add: alltoallv_copy_def)
      next
        case (Some i')
        then have i': "i' = i + 1" by (auto simp: int_add_def split: if_splits)
        show ?thesis
          using \<open>alltoallv_plan cfg r i _ = Some pl\<close> pl \<open>memcpy _ _ _ _ = Some h\<close> Some i' ev nx i
            d(1,5)
          by (simp add: alltoallv_copy_def a2av_rank_trace_def a2av_trace_ok_def)
      qed
    qed
  qed
qed

lemma v_rank_trace_free:
  assumes "pc (ranks s r) = FreeTmp" "a2av_rank_trace cfg s r"
  shows "a2av_rank_trace cfg
           (free_tmp (v_sendbuf (a2av cfg r) = v_recvbuf (a2av cfg r)) r FenceB s) r"
proof -
  have f: "a2av_rank_trace cfg (fault r s) r"
    using v_rank_trace_faultI[OF assms(2,1)] by simp
  show ?thesis using assms f
    by (simp add: free_tmp_def a2av_rank_trace_def[where s = "emit _ _ _"]
          a2av_rank_trace_def[where s = "goto _ _ _"]
          a2av_rank_trace_def[where s = s] a2av_trace_ok_def a2av_post_def a2av_inplace_def
        split: option.splits)
qed

lemma v_rank_trace_step:
  assumes "comm_ok cfg" "r < nranks cfg" "a2av_rank_trace cfg s r"
  shows "a2av_rank_trace cfg (collAlltoallvLocal_step cfg r s) r"
proof (cases "pc (ranks s r)")
  case Entry
  then show ?thesis using assms v_rank_trace_entry by (simp add: collAlltoallvLocal_step_def)
next
  case StoreDispls
  then show ?thesis using assms v_rank_trace_store_displs
    by (simp add: collAlltoallvLocal_step_def)
next
  case StoreBuffer
  then show ?thesis using assms v_rank_trace_store_buffer
    by (simp add: collAlltoallvLocal_step_def)
next
  case StoreReady
  then show ?thesis using assms by (simp add: collAlltoallvLocal_step_def)
next
  case FenceA
  then show ?thesis using assms
    by (simp add: collAlltoallvLocal_step_def a2av_rank_trace_def a2av_trace_ok_def a2av_loop_def)
next
  case (Poll i)
  then show ?thesis using assms v_rank_trace_poll by (simp add: collAlltoallvLocal_step_def)
next
  case (Copy i)
  then show ?thesis using assms v_rank_trace_copy by (simp add: collAlltoallvLocal_step_def)
next
  case BarrierEnter
  then show ?thesis using assms
    by (simp add: collAlltoallvLocal_step_def a2av_rank_trace_def a2av_trace_ok_def)
next
  case (BarrierWait g)
  then show ?thesis using assms
    by (simp add: collAlltoallvLocal_step_def a2av_rank_trace_def a2av_trace_ok_def
          collBarrierLocal_wait_def)
next
  case FreeTmp
  then show ?thesis using assms v_rank_trace_free by (simp add: collAlltoallvLocal_step_def)
next
  case FenceB
  then show ?thesis using assms
    by (simp add: collAlltoallvLocal_step_def a2av_rank_trace_def a2av_trace_ok_def)
next
  case Update
  then show ?thesis using assms
    by (simp add: collAlltoallvLocal_step_def a2av_rank_trace_def a2av_trace_ok_def)
next
  case Ret
  then show ?thesis using assms
    by (simp add: collAlltoallvLocal_step_def a2av_rank_trace_def a2av_trace_ok_def)
next
  case (Returned x)
  then show ?thesis using assms by (simp add: collAlltoallvLocal_step_def)
next
  case Aborted
  then show ?thesis using assms by (simp add: collAlltoallvLocal_step_def)
next
  case Faulted
  then show ?thesis using assms by (simp add: collAlltoallvLocal_step_def)
qed

lemma v_rank_trace_other:
  assumes "q \<noteq> r" "a2av_rank_trace cfg s r"
  shows "a2av_rank_trace cfg (collAlltoallvLocal_step cfg q s) r"
  using assms alltoallv_step_others[of q s cfg]
  by (simp add: a2av_rank_trace_def others_same_def)

lemma a2av_trace_inv_step:
  assumes "comm_ok cfg" "a2av_trace_inv cfg s"
  shows "a2av_trace_inv cfg (collAlltoallvLocal_step cfg q s)"
  unfolding a2av_trace_inv_def
proof (intro allI impI)
  fix r assume r: "r < nranks cfg"
  then have "a2av_rank_trace cfg s r"
    using assms(2) by (simp add: a2av_trace_inv_def)
  then show "a2av_rank_trace cfg (collAlltoallvLocal_step cfg q s) r"
    using v_rank_trace_step[OF assms(1) r] v_rank_trace_other by (cases "q = r") auto
qed

lemma a2av_trace_inv_run:
  assumes "comm_ok cfg" "a2av_trace_inv cfg s"
  shows "a2av_trace_inv cfg (run (collAlltoallvLocal_step cfg) sched s)"
  using assms(2) by (induction sched arbitrary: s) (simp_all add: a2av_trace_inv_step[OF assms(1)])

lemma a2av_trace_inv_start: "a2av_trace_inv cfg (start_state h k)"
  by (simp add: a2av_trace_inv_def a2av_rank_trace_def a2av_trace_ok_def start_state_def)

lemma pc_entry:
  "a2a_violated cfg r \<Longrightarrow> alltoall_entry cfg r s = abort r s"
  "\<not> a2a_violated cfg r \<Longrightarrow> \<not> ret_or_abort (pc (ranks (alltoall_entry cfg r s) r))"
  by (simp_all add: alltoall_entry_def a2a_violated_def Let_def split: option.splits prod.splits)

lemma pc_v_entry:
  "a2av_violated cfg r \<Longrightarrow> alltoallv_entry cfg r s = abort r s"
  "\<not> a2av_violated cfg r \<Longrightarrow> \<not> ret_or_abort (pc (ranks (alltoallv_entry cfg r s) r))"
  by (simp_all add: alltoallv_entry_def a2av_violated_def Let_def split: option.splits prod.splits)

lemma pc_handlers:
  "\<not> ret_or_abort (pc (ranks (alltoall_store_buffer cfg r s) r))"
  "\<not> ret_or_abort (pc (ranks (alltoall_store_ready cfg r s) r))"
  "pc (ranks s r) = Poll i \<Longrightarrow> \<not> ret_or_abort (pc (ranks (alltoall_poll cfg r i s) r))"
  "\<not> ret_or_abort (pc (ranks (alltoall_copy cfg r i s) r))"
  "\<not> ret_or_abort (pc (ranks (alltoallv_store_displs cfg r s) r))"
  "\<not> ret_or_abort (pc (ranks (alltoallv_store_buffer cfg r s) r))"
  "pc (ranks s r) = Poll i \<Longrightarrow> \<not> ret_or_abort (pc (ranks (alltoallv_poll cfg r i s) r))"
  "\<not> ret_or_abort (pc (ranks (alltoallv_copy cfg r i s) r))"
  by (simp_all add: alltoall_store_buffer_def alltoall_store_ready_def alltoall_poll_def
        alltoall_copy_def alltoallv_store_displs_def alltoallv_store_buffer_def
        alltoallv_poll_def alltoallv_copy_def Let_def split: option.splits prod.splits)

lemma pc_free:
  "\<not> ret_or_abort nx \<Longrightarrow> \<not> ret_or_abort (pc (ranks (free_tmp b r nx s) r))"
  by (simp add: free_tmp_def split: option.splits)

lemma pc_barrier_wait:
  "pc (ranks s r) = BarrierWait g \<Longrightarrow>
   \<not> ret_or_abort (pc (ranks (collBarrierLocal_wait r g FreeTmp s) r))"
  by simp

lemma alltoall_step_pc:
  assumes "ret_or_abort (pc (ranks (collAlltoallLocal_step cfg q s) r))"
  shows "pc (ranks (collAlltoallLocal_step cfg q s) r) = pc (ranks s r)
         \<or> (q = r \<and> r < nranks cfg \<and> pc (ranks s r) = Ret
              \<and> pc (ranks (collAlltoallLocal_step cfg q s) r) = Returned collSuccess)
         \<or> (q = r \<and> r < nranks cfg \<and> pc (ranks s r) = Entry \<and> a2a_violated cfg r
              \<and> pc (ranks (collAlltoallLocal_step cfg q s) r) = Aborted)"
proof (cases "q = r \<and> r < nranks cfg")
  case False
  then show ?thesis using alltoall_step_others[of q s cfg]
    by (auto simp: others_same_def collAlltoallLocal_step_def)
next
  case True
  then have qr: "q = r" "r < nranks cfg" by simp_all
  show ?thesis
  proof (cases "pc (ranks s r)")
    case Entry
    then show ?thesis using assms qr pc_entry[of cfg r s]
      by (cases "a2a_violated cfg r") (simp_all add: collAlltoallLocal_step_def)
  next
    case (Poll i)
    then show ?thesis using assms qr pc_handlers(3)[of s r i cfg]
      by (simp add: collAlltoallLocal_step_def)
  next
    case (BarrierWait g)
    then show ?thesis using assms qr
      by (simp add: collAlltoallLocal_step_def split: if_splits)
  next
    case FreeTmp
    then show ?thesis using assms qr pc_free[of Update _ r s]
      by (simp add: collAlltoallLocal_step_def)
  qed (use assms qr pc_handlers in \<open>simp_all add: collAlltoallLocal_step_def\<close>)
qed

lemma alltoallv_step_pc:
  assumes "ret_or_abort (pc (ranks (collAlltoallvLocal_step cfg q s) r))"
  shows "pc (ranks (collAlltoallvLocal_step cfg q s) r) = pc (ranks s r)
         \<or> (q = r \<and> r < nranks cfg \<and> pc (ranks s r) = Ret
              \<and> pc (ranks (collAlltoallvLocal_step cfg q s) r) = Returned collSuccess)
         \<or> (q = r \<and> r < nranks cfg \<and> pc (ranks s r) = Entry \<and> a2av_violated cfg r
              \<and> pc (ranks (collAlltoallvLocal_step cfg q s) r) = Aborted)"
proof (cases "q = r \<and> r < nranks cfg")
  case False
  then show ?thesis using alltoallv_step_others[of q s cfg]
    by (auto simp: others_same_def collAlltoallvLocal_step_def)
next
  case True
  then have qr: "q = r" "r < nranks cfg" by simp_all
  show ?thesis
  proof (cases "pc (ranks s r)")
    case Entry
    then show ?thesis using assms qr pc_v_entry[of cfg r s]
      by (cases "a2av_violated cfg r") (simp_all add: collAlltoallvLocal_step_def)
  next
    case (Poll i)
    then show ?thesis using assms qr pc_handlers(7)[of s r i cfg]
      by (simp add: collAlltoallvLocal_step_def)
  next
    case (BarrierWait g)
    then show ?thesis using assms qr
      by (simp add: collAlltoallvLocal_step_def split: if_splits)
  next
    case FreeTmp
    then show ?thesis using assms qr pc_free[of FenceB _ r s]
      by (simp add: collAlltoallvLocal_step_def)
  qed (use assms qr pc_handlers in \<open>simp_all add: collAlltoallvLocal_step_def\<close>)
qed

lemma alltoall_step_stopped:
  "stopped (pc (ranks s r)) \<Longrightarrow> ranks (collAlltoallLocal_step cfg q s) r = ranks s r"
  using alltoall_step_others[of q s cfg]
  by (cases "q = r"; cases "pc (ranks s r)")
     (simp_all add: others_same_def collAlltoallLocal_step_def)

lemma alltoallv_step_stopped:
  "stopped (pc (ranks s r)) \<Longrightarrow> ranks (collAlltoallvLocal_step cfg q s) r = ranks s r"
  using alltoallv_step_others[of q s cfg]
  by (cases "q = r"; cases "pc (ranks s r)")
     (simp_all add: others_same_def collAlltoallvLocal_step_def)

lemma run_stopped:
  assumes "\<And>q s. stopped (pc (ranks s r)) \<Longrightarrow> ranks (stp q s) r = ranks s r"
    and "stopped (pc (ranks s r))"
  shows "ranks (run stp sched s) r = ranks s r"
  using assms(2) by (induction sched arbitrary: s) (simp_all add: assms(1))

lemma a2a_pre_no_store: "\<forall>e\<in>set (a2a_pre cfg r). \<not> is_store e \<and> e \<noteq> EvFence"
  by (simp add: a2a_pre_def)

lemma a2a_history_shape:
  assumes "a2a_history cfg r tmp p = Some h"
  shows "h = [] \<or> h = a2a_pre cfg r
         \<or> (\<exists>t. h = a2a_pre cfg r @ EvStoreBuffer tmp # t)"
  using assms
  by (cases p) (auto simp: a2a_loop_def a2a_post_def split: if_splits)

lemma a2a_history_past_fence:
  assumes "a2a_history cfg r tmp p = Some h" "p \<notin> {Entry, StoreBuffer, StoreReady, FenceA}"
  shows "\<exists>t. h = a2a_pre cfg r @ EvStoreBuffer tmp # EvStoreReady # EvFence # t"
  using assms
  by (cases p) (auto simp: a2a_loop_def a2a_post_def split: if_splits)

lemma takeWhile_pre:
  assumes "\<forall>e\<in>set xs. P e" "\<not> P y"
  shows "takeWhile P (xs @ y # ys) = xs" "dropWhile P (xs @ y # ys) = y # ys"
  using assms by (simp_all add: takeWhile_append2 dropWhile_append2)

lemma no_fence_before_store_a2a:
  assumes "a2a_history cfg r tmp p = Some h" "x = [] \<or> x = [EvFault]"
  shows "\<not> fence_before_store (h @ x)"
proof -
  have pre: "\<forall>e\<in>set (a2a_pre cfg r). \<not> is_store e" "EvFence \<notin> set (a2a_pre cfg r)"
    using a2a_pre_no_store[of cfg r] by auto
  from a2a_history_shape[OF assms(1)] show ?thesis
  proof (elim disjE exE)
    assume "h = []" then show ?thesis using assms(2) by (auto simp: fence_before_store_def)
  next
    assume "h = a2a_pre cfg r"
    then show ?thesis using assms(2) pre
      by (auto simp: fence_before_store_def takeWhile_append2 dest: set_takeWhileD)
  next
    fix t assume "h = a2a_pre cfg r @ EvStoreBuffer tmp # t"
    then have "takeWhile (\<lambda>e. \<not> is_store e) (h @ x) = a2a_pre cfg r"
      using takeWhile_pre(1)[of "a2a_pre cfg r" "\<lambda>e. \<not> is_store e" "EvStoreBuffer tmp" "t @ x"] pre
      by simp
    then show ?thesis using pre by (simp add: fence_before_store_def)
  qed
qed

lemma stores_then_fence_a2a:
  assumes "a2a_history cfg r tmp p = Some h" "p \<notin> {Entry, StoreBuffer, StoreReady, FenceA}"
  shows "stores_then_fence h"
proof -
  have pre: "\<forall>e\<in>set (a2a_pre cfg r). \<not> is_store e"
    using a2a_pre_no_store[of cfg r] by auto
  from a2a_history_past_fence[OF assms] obtain t where
    h: "h = a2a_pre cfg r @ EvStoreBuffer tmp # EvStoreReady # EvFence # t" by blast
  have "dropWhile (\<lambda>e. \<not> is_store e) h = EvStoreBuffer tmp # EvStoreReady # EvFence # t"
    unfolding h using takeWhile_pre(2)[of "a2a_pre cfg r" "\<lambda>e. \<not> is_store e"] pre by simp
  then show ?thesis by (simp add: stores_then_fence_def)
qed

lemma a2a_trace_run:
  assumes "comm_ok cfg" "r < nranks cfg"
  shows "a2a_rank_trace cfg (run (collAlltoallLocal_step cfg) sched (start_state h k)) r"
  using a2a_trace_inv_run[OF assms(1) a2a_trace_inv_start, of sched h k] assms(2)
  by (simp add: a2a_trace_inv_def a2a_rank_trace_def)

lemma after_last_copy_append:
  assumes "is_copy e" "\<forall>x\<in>set ys. \<not> is_copy x"
  shows "after_last_copy (xs @ e # ys) = ys"
proof -
  have "takeWhile (\<lambda>e. \<not> is_copy e) (rev ys @ e # rev xs) = rev ys"
    using assms takeWhile_pre(1)[of "rev ys" "\<lambda>e. \<not> is_copy e" e "rev xs"] by simp
  then show ?thesis by (simp add: after_last_copy_def)
qed

lemma rounds_events:
  "\<forall>e\<in>set (rounds n r len m). (\<exists>p. e = EvReady p) \<or> is_copy e"
  by (auto simp: rounds_def)

lemma a2a_loop_events:
  "\<forall>e\<in>set (a2a_loop cfg r tmp m).
     e \<noteq> EvUpdate \<and> e \<noteq> EvBarrierEnter \<and> e \<noteq> EvBarrierLeave \<and> e \<noteq> EvFree"
  using rounds_events[of "nranks cfg" r "\<lambda>_. a2a_len cfg r" m]
  by (auto simp: a2a_loop_def a2a_pre_def)

lemma a2av_loop_events:
  "\<forall>e\<in>set (a2av_loop cfg r tmp m).
     e \<noteq> EvUpdate \<and> e \<noteq> EvBarrierEnter \<and> e \<noteq> EvBarrierLeave \<and> e \<noteq> EvFree"
  using rounds_events[of "nranks cfg" r "a2av_len cfg r" m]
  by (auto simp: a2av_loop_def a2av_pre_def)

lemma rounds_last:
  assumes "0 < m"
  shows "\<exists>xs p. rounds n r len m = xs @ [EvCopy p (len p)]"
proof -
  obtain k where k: "m = Suc k" using assms by (cases m) auto
  have "rounds n r len m = (rounds n r len k @ [EvReady (ring_peer n r (Suc k))])
            @ [EvCopy (ring_peer n r (Suc k)) (len (ring_peer n r (Suc k)))]"
    unfolding k rounds_Suc by simp
  then show ?thesis by blast
qed

lemma a2a_loop_last:
  assumes "0 < nranks cfg"
  shows "\<exists>xs p. a2a_loop cfg r tmp (nranks cfg) = xs @ [EvCopy p (a2a_len cfg r)]"
proof -
  from rounds_last[OF assms, of "nranks cfg" r "\<lambda>_. a2a_len cfg r"] obtain xs p where
    "rounds (nranks cfg) r (\<lambda>_. a2a_len cfg r) (nranks cfg) = xs @ [EvCopy p (a2a_len cfg r)]"
    by blast
  then have "a2a_loop cfg r tmp (nranks cfg)
               = (a2a_pre cfg r @ [EvStoreBuffer tmp, EvStoreReady, EvFence] @ xs)
                 @ [EvCopy p (a2a_len cfg r)]"
    by (simp add: a2a_loop_def)
  then show ?thesis by blast
qed

lemma a2av_loop_last:
  assumes "0 < nranks cfg"
  shows "\<exists>xs p n. a2av_loop cfg r tmp (nranks cfg) = xs @ [EvCopy p n]"
proof -
  from rounds_last[OF assms, of "nranks cfg" r "a2av_len cfg r"] obtain xs p where
    "rounds (nranks cfg) r (a2av_len cfg r) (nranks cfg) = xs @ [EvCopy p (a2av_len cfg r p)]"
    by blast
  then have "a2av_loop cfg r tmp (nranks cfg)
               = (a2av_pre cfg r @ [EvStoreDispls, EvStoreBuffer tmp, EvFence] @ xs)
                 @ [EvCopy p (a2av_len cfg r p)]"
    by (simp add: a2av_loop_def)
  then show ?thesis by blast
qed

lemma a2a_loop_no_update [simp]: "EvUpdate \<notin> set (a2a_loop cfg r tmp m)"
  using a2a_loop_events[of cfg r tmp m] by blast

lemma a2av_loop_no_update [simp]: "EvUpdate \<notin> set (a2av_loop cfg r tmp m)"
  using a2av_loop_events[of cfg r tmp m] by blast

lemma a2a_history_no_update:
  assumes "a2a_history cfg r tmp p = Some h" "before_update p"
  shows "EvUpdate \<notin> set h"
  using assms
  by (cases p) (auto simp: a2a_pre_def split: if_splits)

lemma a2av_history_no_update:
  assumes "a2av_history cfg r tmp p = Some h" "before_update p \<or> p = FenceB"
  shows "EvUpdate \<notin> set h"
  using assms
  by (cases p) (auto simp: a2av_post_def a2av_pre_def split: if_splits)

lemma takeWhile_until:
  assumes "y \<notin> set xs"
  shows "takeWhile (\<lambda>e. e \<noteq> y) (xs @ y # ys) = xs"
  using assms by (intro takeWhile_pre(1)) auto

lemma a2a_history_update_after_barrier:
  assumes "a2a_history cfg r tmp p = Some h" "EvUpdate \<in> set h"
  shows "EvBarrierLeave \<in> set (takeWhile (\<lambda>e. e \<noteq> EvUpdate) h)"
proof -
  have nb: "\<not> before_update p" using a2a_history_no_update[OF assms(1)] assms(2) by blast
  have np: "EvUpdate \<notin> set (a2a_post cfg r tmp)"
    using a2a_loop_events[of cfg r tmp "nranks cfg"] by (auto simp: a2a_post_def)
  have bl: "EvBarrierLeave \<in> set (a2a_post cfg r tmp)" by (simp add: a2a_post_def)
  from nb assms np obtain t where "h = a2a_post cfg r tmp @ EvUpdate # t"
    by (cases p) (auto split: if_splits)
  then show ?thesis using takeWhile_until[OF np] bl by simp
qed

lemma a2av_history_update_after_barrier:
  assumes "a2av_history cfg r tmp p = Some h" "EvUpdate \<in> set h"
  shows "EvBarrierLeave \<in> set (takeWhile (\<lambda>e. e \<noteq> EvUpdate) h)"
proof -
  have nb: "\<not> before_update p" "p \<noteq> FenceB"
    using a2av_history_no_update[OF assms(1)] assms(2) by blast+
  have np: "EvUpdate \<notin> set (a2av_post cfg r tmp @ [EvFence])"
    using a2av_loop_events[of cfg r tmp "nranks cfg"] by (auto simp: a2av_post_def)
  have bl: "EvBarrierLeave \<in> set (a2av_post cfg r tmp @ [EvFence])" by (simp add: a2av_post_def)
  from nb assms np obtain t where "h = (a2av_post cfg r tmp @ [EvFence]) @ EvUpdate # t"
    by (cases p) (auto split: if_splits)
  then show ?thesis using takeWhile_until[OF np] bl by simp
qed

lemma a2av_trace_run:
  assumes "comm_ok cfg" "r < nranks cfg"
  shows "a2av_rank_trace cfg (run (collAlltoallvLocal_step cfg) sched (start_state h k)) r"
  using a2av_trace_inv_run[OF assms(1) a2av_trace_inv_start, of sched h k] assms(2)
  by (simp add: a2av_trace_inv_def)

lemma a2a_update_after_barrier:
  assumes "a2a_rank_trace cfg s r" "EvUpdate \<in> set (events r (trace s))"
  shows "EvBarrierLeave \<in> set (takeWhile (\<lambda>e. e \<noteq> EvUpdate) (events r (trace s)))"
proof (cases "pc (ranks s r) = Aborted \<or> pc (ranks s r) = Faulted")
  case True
  then show ?thesis using assms a2a_history_no_update
    by (fastforce simp: a2a_rank_trace_def a2a_trace_ok_def split: if_splits)
next
  case False
  then have "a2a_history cfg r (sendbuf_tmp (ranks s r)) (pc (ranks s r))
               = Some (events r (trace s))"
    using assms(1) by (simp add: a2a_rank_trace_def a2a_trace_ok_def)
  then show ?thesis using a2a_history_update_after_barrier assms(2) by blast
qed

lemma a2av_update_after_barrier:
  assumes "a2av_rank_trace cfg s r" "EvUpdate \<in> set (events r (trace s))"
  shows "EvBarrierLeave \<in> set (takeWhile (\<lambda>e. e \<noteq> EvUpdate) (events r (trace s)))"
proof (cases "pc (ranks s r) = Aborted \<or> pc (ranks s r) = Faulted")
  case True
  then show ?thesis using assms a2av_history_no_update
    by (fastforce simp: a2av_rank_trace_def a2av_trace_ok_def split: if_splits)
next
  case False
  then have "a2av_history cfg r (sendbuf_tmp (ranks s r)) (pc (ranks s r))
               = Some (events r (trace s))"
    using assms(1) by (simp add: a2av_rank_trace_def a2av_trace_ok_def)
  then show ?thesis using a2av_history_update_after_barrier assms(2) by blast
qed

lemma a2a_returned_sequence:
  assumes "a2a_rank_trace cfg s r" "pc (ranks s r) = Returned collSuccess" "r < nranks cfg"
  shows "after_last_copy (events r (trace s))
           = [EvBarrierEnter, EvBarrierLeave] @ (if a2a_inplace cfg r then [EvFree] else [])
             @ [EvUpdate, EvFence, EvReturn collSuccess]"
    and "count_list (events r (trace s)) EvUpdate = 1"
proof -
  let ?tmp = "sendbuf_tmp (ranks s r)"
  let ?tail = "[EvBarrierEnter, EvBarrierLeave] @ (if a2a_inplace cfg r then [EvFree] else [])
                @ [EvUpdate, EvFence, EvReturn collSuccess]"
  have ev: "events r (trace s) = a2a_loop cfg r ?tmp (nranks cfg) @ ?tail"
    using assms(1,2) by (simp add: a2a_rank_trace_def a2a_trace_ok_def a2a_post_def)
  from a2a_loop_last[of cfg r ?tmp] assms(3) obtain xs p where
    l: "a2a_loop cfg r ?tmp (nranks cfg) = xs @ [EvCopy p (a2a_len cfg r)]" by auto
  have "events r (trace s) = xs @ EvCopy p (a2a_len cfg r) # ?tail"
    unfolding ev l by simp
  then show "after_last_copy (events r (trace s)) = ?tail"
    using after_last_copy_append[of "EvCopy p (a2a_len cfg r)" ?tail xs] by simp
  have "EvUpdate \<notin> set (a2a_loop cfg r ?tmp (nranks cfg))"
    using a2a_loop_events[of cfg r ?tmp "nranks cfg"] by auto
  then show "count_list (events r (trace s)) EvUpdate = 1"
    unfolding ev by simp
qed

lemma a2av_returned_sequence:
  assumes "a2av_rank_trace cfg s r" "pc (ranks s r) = Returned collSuccess" "r < nranks cfg"
  shows "after_last_copy (events r (trace s))
           = [EvBarrierEnter, EvBarrierLeave] @ (if a2av_inplace cfg r then [EvFree] else [])
             @ [EvFence, EvUpdate, EvReturn collSuccess]"
    and "count_list (events r (trace s)) EvUpdate = 1"
proof -
  let ?tmp = "sendbuf_tmp (ranks s r)"
  let ?tail = "[EvBarrierEnter, EvBarrierLeave] @ (if a2av_inplace cfg r then [EvFree] else [])
                @ [EvFence, EvUpdate, EvReturn collSuccess]"
  have ev: "events r (trace s) = a2av_loop cfg r ?tmp (nranks cfg) @ ?tail"
    using assms(1,2) by (simp add: a2av_rank_trace_def a2av_trace_ok_def a2av_post_def)
  from a2av_loop_last[of cfg r ?tmp] assms(3) obtain xs p n where
    l: "a2av_loop cfg r ?tmp (nranks cfg) = xs @ [EvCopy p n]" by auto
  have "events r (trace s) = xs @ EvCopy p n # ?tail"
    unfolding ev l by simp
  then show "after_last_copy (events r (trace s)) = ?tail"
    using after_last_copy_append[of "EvCopy p n" ?tail xs] by simp
  have "EvUpdate \<notin> set (a2av_loop cfg r ?tmp (nranks cfg))"
    using a2av_loop_events[of cfg r ?tmp "nranks cfg"] by auto
  then show "count_list (events r (trace s)) EvUpdate = 1"
    unfolding ev by simp
qed

lemma copies_checked_append:
  "copies_checked prev (xs @ ys)
     = (copies_checked prev xs \<and> copies_checked (if xs = [] then prev else Some (last xs)) ys)"
  by (induction xs arbitrary: prev) auto

lemma copies_checked_plain:
  "\<forall>e\<in>set xs. \<not> is_copy e \<Longrightarrow> copies_checked prev xs"
  by (induction xs arbitrary: prev) (auto split: event.splits)

lemma copies_checked_rounds: "copies_checked prev (rounds n r len m)"
proof (induction m)
  case 0
  then show ?case by simp
next
  case (Suc m)
  then show ?case by (simp add: rounds_Suc copies_checked_append)
qed

lemma copies_checked_a2av_loop:
  assumes "\<forall>e\<in>set t. \<not> is_copy e"
  shows "copies_checked None (a2av_loop cfg r tmp m @ t)"
proof -
  have 1: "copies_checked None (a2av_pre cfg r @ [EvStoreDispls, EvStoreBuffer tmp, EvFence])"
    by (rule copies_checked_plain) (simp add: a2av_pre_def)
  have "copies_checked None
          ((a2av_pre cfg r @ [EvStoreDispls, EvStoreBuffer tmp, EvFence])
            @ rounds (nranks cfg) r (a2av_len cfg r) m @ t)"
    unfolding copies_checked_append[of None "a2av_pre cfg r @ _"]
    using 1 copies_checked_rounds copies_checked_plain[OF assms]
    by (simp add: copies_checked_append)
  then show ?thesis by (simp add: a2av_loop_def)
qed

lemma a2av_history_checked:
  assumes "a2av_history cfg r tmp p = Some h" "x = [] \<or> x = [EvFault]"
  shows "copies_checked None (h @ x)"
proof -
  consider (plain) "\<forall>e\<in>set h. \<not> is_copy e"
    | (loop) m t where "h = a2av_loop cfg r tmp m @ t" "\<forall>e\<in>set t. \<not> is_copy e"
    using assms(1)
  proof (cases p)
    case (Poll i)
    then have "h = a2av_loop cfg r tmp (nat (i - 1)) @ []"
      using assms(1) by (simp split: if_splits)
    then show ?thesis using that(2) by fastforce
  next
    case (Copy i)
    then have "h = a2av_loop cfg r tmp (nat (i - 1)) @ [EvReady (ring_peer (nranks cfg) r (nat i))]"
      using assms(1) by (simp split: if_splits)
    then show ?thesis using that(2) by fastforce
  next
    case BarrierEnter
    then have "h = a2av_loop cfg r tmp (nranks cfg) @ []" using assms(1) by simp
    then show ?thesis using that(2) by fastforce
  next
    case (BarrierWait g)
    then have "h = a2av_loop cfg r tmp (nranks cfg) @ [EvBarrierEnter]" using assms(1) by simp
    then show ?thesis using that(2) by fastforce
  next
    case FreeTmp
    then have "h = a2av_loop cfg r tmp (nranks cfg) @ [EvBarrierEnter, EvBarrierLeave]"
      using assms(1) by simp
    then show ?thesis using that(2) by fastforce
  next
    case FenceB
    then have "h = a2av_loop cfg r tmp (nranks cfg)
                 @ ([EvBarrierEnter, EvBarrierLeave] @ (if a2av_inplace cfg r then [EvFree] else []))"
      using assms(1) by (simp add: a2av_post_def)
    then show ?thesis using that(2) by fastforce
  next
    case Update
    then have "h = a2av_loop cfg r tmp (nranks cfg)
                 @ ([EvBarrierEnter, EvBarrierLeave] @ (if a2av_inplace cfg r then [EvFree] else [])
                    @ [EvFence])"
      using assms(1) by (simp add: a2av_post_def)
    then show ?thesis using that(2) by fastforce
  next
    case Ret
    then have "h = a2av_loop cfg r tmp (nranks cfg)
                 @ ([EvBarrierEnter, EvBarrierLeave] @ (if a2av_inplace cfg r then [EvFree] else [])
                    @ [EvFence, EvUpdate])"
      using assms(1) by (simp add: a2av_post_def)
    then show ?thesis using that(2) by fastforce
  next
    case (Returned c)
    then have "h = a2av_loop cfg r tmp (nranks cfg)
                 @ ([EvBarrierEnter, EvBarrierLeave] @ (if a2av_inplace cfg r then [EvFree] else [])
                    @ [EvFence, EvUpdate, EvReturn collSuccess])"
      using assms(1) by (simp add: a2av_post_def split: if_splits)
    then show ?thesis using that(2) by fastforce
  qed (use assms(1) that(1) in \<open>auto simp: a2av_pre_def\<close>)
  then show ?thesis
  proof cases
    case plain
    then show ?thesis using assms(2) by (intro copies_checked_plain) auto
  next
    case loop
    have "\<forall>e\<in>set (t @ x). \<not> is_copy e" using loop(2) assms(2) by auto
    then show ?thesis using copies_checked_a2av_loop[of "t @ x" cfg r tmp m] loop(1) by simp
  qed
qed

lemma a2av_copies_checked:
  assumes "a2av_rank_trace cfg s r"
  shows "copies_checked None (events r (trace s))"
proof (cases "pc (ranks s r) = Aborted")
  case True
  then show ?thesis using assms by (simp add: a2av_rank_trace_def a2av_trace_ok_def)
next
  case na: False
  show ?thesis
  proof (cases "pc (ranks s r) = Faulted")
    case True
    then obtain p0 tmp0 h0 where "a2av_history cfg r tmp0 p0 = Some h0"
      "events r (trace s) = h0 @ [EvFault]"
      using assms by (auto simp: a2av_rank_trace_def a2av_trace_ok_def)
    then show ?thesis using a2av_history_checked[of cfg r tmp0 p0 h0 "[EvFault]"] by simp
  next
    case False
    then have "a2av_history cfg r (sendbuf_tmp (ranks s r)) (pc (ranks s r))
                 = Some (events r (trace s))"
      using assms na by (simp add: a2av_rank_trace_def a2av_trace_ok_def)
    then show ?thesis using a2av_history_checked[of cfg r _ _ _ "[]"] by fastforce
  qed
qed

lemma no_ready_basic [simp]:
  "no_ready (goto r p s) = no_ready s"
  "no_ready (emit r e s) = no_ready s"
  "no_ready (fault r s) = no_ready s"
  "no_ready (abort r s) = no_ready s"
  "no_ready (set_rank r f s) = no_ready s"
  "no_ready (s\<lparr>heap := h\<rparr>) = no_ready s"
  "no_ready (collBarrierLocal_arrive cfg r s) = no_ready s"
  "no_ready (collBarrierLocal_wait r g nx s) = no_ready s"
  by (simp_all add: no_ready_def collBarrierLocal_wait_def)

lemma no_ready_update: "no_ready s \<Longrightarrow> no_ready (collUpdateBuffer cfg r s)"
  by (simp add: no_ready_def collUpdateBuffer_def Let_def)

lemma no_ready_handlers:
  "no_ready s \<Longrightarrow> no_ready (alltoallv_entry cfg r s)"
  "no_ready s \<Longrightarrow> no_ready (alltoallv_store_displs cfg r s)"
  "no_ready s \<Longrightarrow> no_ready (alltoallv_store_buffer cfg r s)"
  "no_ready s \<Longrightarrow> no_ready (alltoallv_poll cfg r i s)"
  "no_ready s \<Longrightarrow> no_ready (alltoallv_copy cfg r i s)"
  "no_ready s \<Longrightarrow> no_ready (free_tmp b r nx s)"
  by (simp_all add: alltoallv_entry_def alltoallv_store_displs_def alltoallv_store_buffer_def
        alltoallv_poll_def alltoallv_copy_def free_tmp_def Let_def no_ready_def[of "set_slot _ _ _"]
        no_ready_def[of s]
      split: option.splits prod.splits)

lemma no_ready_step: "no_ready s \<Longrightarrow> no_ready (collAlltoallvLocal_step cfg q s)"
  by (simp add: collAlltoallvLocal_step_def no_ready_handlers no_ready_update split: pc.splits)

lemma no_ready_run: "no_ready s \<Longrightarrow> no_ready (run (collAlltoallvLocal_step cfg) sched s)"
  by (induction sched arbitrary: s) (simp_all add: no_ready_step)

lemma no_ready_start: "no_ready (start_state h k)"
  by (simp add: no_ready_def start_state_def empty_slot_def)

lemma alltoallv_poll_exact:
  assumes "comm_ok cfg" "r < nranks cfg" "1 \<le> i" "i \<le> int (nranks cfg)"
    and "int (nranks cfg) < 2 ^ 31 - 1" "recvfrom_global_rank (comm cfg r) i = Some p"
  shows "alltoallv_poll cfg r i t =
           (if buffers (cur_slot t r) p \<noteq> Null \<and> displs (cur_slot t r) p \<noteq> None
            then emit r (EvReady p) (goto r (Copy i) t) else emit r (EvSpin p) t)"
proof -
  have sz: "global_comm_size (comm cfg r) = int (nranks cfg)"
    using assms(1,2) by (simp add: comm_ok_def)
  have "int_add (int (nranks cfg)) 1 = Some (int (nranks cfg) + 1)"
    using assms(5) by (simp add: int_add_def int_ok_def)
  then show ?thesis using assms(4,6) by (auto simp: alltoallv_poll_def sz)
qed

lemma malloc_fails: "avail h < n \<Longrightarrow> malloc h n = (Null, h)"
  by (simp add: malloc_def)

lemma memcpy_Null [simp]: "memcpy h Null src n = None"
  by (simp add: memcpy_def)


lemma memcpy_SomeD:
  assumes "memcpy h dst src n = Some h'"
  obtains bd od bs os d sd where
    "dst = Ptr bd od" "src = Ptr bs os" "blocks h bd = Some d" "blocks h bs = Some sd"
    "0 \<le> od" "0 \<le> os" "nat od + n \<le> length d" "nat os + n \<le> length sd"
    "h' = h\<lparr>blocks := (blocks h)(bd \<mapsto> overwrite d (nat od) (segment sd (nat os) n))\<rparr>"
  using assms
  by (auto simp: memcpy_def split: ptr.splits option.splits if_splits)

lemma free_SomeD:
  assumes "free h p = Some h'"
  obtains "p = Null" "h' = h"
  | b d where "p = Ptr b 0" "blocks h b = Some d"
      "h' = h\<lparr>blocks := (blocks h)(b := None), avail := avail h + length d\<rparr>"
  using assms
  by (auto simp: free_def split: ptr.splits option.splits if_splits)

lemma malloc_cases:
  obtains "malloc h n = (Null, h)"
  | "malloc h n = (Ptr (fresh h) 0,
       h\<lparr>blocks := (blocks h)(fresh h \<mapsto> replicate n 0), fresh := Suc (fresh h),
         avail := avail h - n\<rparr>)"
  by (cases "n \<le> avail h") (auto simp: malloc_def)

lemma heap_step_refl [simp]: "heap_step h0 rcv h h"
  by (simp add: heap_step_def)

lemma heap_step_trans:
  assumes "heap_step h0 rcv h h1" "heap_step h0 rcv h1 h2"
  shows "heap_step h0 rcv h h2"
  using assms unfolding heap_step_def
  by (metis (no_types, lifting) order.trans less_le_trans)

lemma heap_step_malloc:
  assumes "malloc h n = (p, h1)"
  shows "heap_step h0 rcv h h1"
  using assms by (cases rule: malloc_cases[of h n]) (auto simp: heap_step_def heap_ok_def)

lemma heap_step_memcpy_rcv:
  assumes "memcpy h dst src n = Some h'" "blk_of dst = blk_of rcv"
  shows "heap_step h0 rcv h h'"
  using assms(1)
proof (cases rule: memcpy_SomeD)
  case (1 bd od bs os d sd)
  then show ?thesis using assms(2) by (auto simp: heap_step_def heap_ok_def)
qed

lemma heap_step_memcpy_new:
  assumes "memcpy h1 (Ptr (fresh h) 0) src n = Some h2" "fresh h1 = Suc (fresh h)"
    "heap_step h0 rcv h h1"
  shows "heap_step h0 rcv h h2"
  using assms(1)
proof (cases rule: memcpy_SomeD)
  case (1 bd od bs os d sd)
  then show ?thesis using assms(2,3)
    by (auto simp: heap_step_def heap_ok_def)
qed

lemma heap_step_free:
  assumes "free h tmp = Some h'" "scratch_ptr h0 tmp"
  shows "heap_step h0 rcv h h'"
  using assms(1)
proof (cases rule: free_SomeD)
  case 1
  then show ?thesis by simp
next
  case (2 b d)
  then show ?thesis using assms(2) by (auto simp: heap_step_def heap_ok_def scratch_ptr_def)
qed

lemma heap_step_inplace:
  assumes "malloc h n = (tmp, h1)" "memcpy h1 tmp rcv' n = Some h2"
  shows "heap_step h0 rcv h h2" "scratch_ptr h tmp" "tmp = Ptr (fresh h) 0"
    "fresh h1 = Suc (fresh h)"
proof -
  have t: "tmp = Ptr (fresh h) 0 \<and> fresh h1 = Suc (fresh h)"
    using assms by (cases rule: malloc_cases[of h n]) auto
  then show "tmp = Ptr (fresh h) 0" "fresh h1 = Suc (fresh h)" by simp_all
  show "scratch_ptr h tmp" using t by (simp add: scratch_ptr_def)
  show "heap_step h0 rcv h h2"
    using heap_step_memcpy_new[of h1 h rcv' n h2 h0 rcv] heap_step_malloc[OF assms(1)] assms(2) t
    by simp
qed

lemma blk_of_ptr_add [simp]: "blk_of (ptr_add p d) = blk_of p"
  by (cases p) simp_all

lemma heap_step_alltoall_entry:
  "heap_step h0 rcv (heap s) (heap (alltoall_entry cfg r s))"
proof (cases "alltoall_scratch_bytes cfg r")
  case None
  then show ?thesis by (simp add: alltoall_entry_def Let_def)
next
  case (Some n)
  obtain tmp h1 where m: "malloc (heap s) n = (tmp, h1)" by (cases "malloc (heap s) n") auto
  show ?thesis
  proof (cases "memcpy h1 tmp (recvbuf (a2a cfg r)) n")
    case None
    then show ?thesis using Some m heap_step_malloc[OF m]
      by (simp add: alltoall_entry_def Let_def)
  next
    case (Some h2)
    then show ?thesis using \<open>alltoall_scratch_bytes cfg r = Some n\<close> m heap_step_inplace(1)[OF m Some]
      by (simp add: alltoall_entry_def Let_def)
  qed
qed

lemma heap_step_alltoallv_entry:
  "heap_step h0 rcv (heap s) (heap (alltoallv_entry cfg r s))"
proof (cases "alltoallv_scratch_bytes cfg r")
  case None
  then show ?thesis by (simp add: alltoallv_entry_def Let_def)
next
  case (Some n)
  obtain tmp h1 where m: "malloc (heap s) n = (tmp, h1)" by (cases "malloc (heap s) n") auto
  show ?thesis
  proof (cases "memcpy h1 tmp (v_recvbuf (a2av cfg r)) n")
    case None
    then show ?thesis using Some m heap_step_malloc[OF m]
      by (simp add: alltoallv_entry_def Let_def)
  next
    case (Some h2)
    then show ?thesis using \<open>alltoallv_scratch_bytes cfg r = Some n\<close> m heap_step_inplace(1)[OF m Some]
      by (simp add: alltoallv_entry_def Let_def)
  qed
qed

lemma heap_step_alltoall_copy:
  "heap_step h0 (recvbuf (a2a cfg r)) (heap s) (heap (alltoall_copy cfg r i s))"
  by (auto simp: alltoall_copy_def split: option.splits prod.splits
        intro!: heap_step_memcpy_rcv)

lemma heap_step_alltoallv_copy:
  "heap_step h0 (v_recvbuf (a2av cfg r)) (heap s) (heap (alltoallv_copy cfg r i s))"
  by (auto simp: alltoallv_copy_def split: option.splits prod.splits
        intro!: heap_step_memcpy_rcv)

lemma heap_step_free_tmp:
  assumes "b \<longrightarrow> scratch_ptr h0 (sendbuf_tmp (ranks s r))"
  shows "heap_step h0 rcv (heap s) (heap (free_tmp b r nx s))"
  using assms by (auto simp: free_tmp_def split: option.splits intro!: heap_step_free)

lemma heap_same_handlers [simp]:
  "heap (alltoall_store_buffer cfg r s) = heap s"
  "heap (alltoall_store_ready cfg r s) = heap s"
  "heap (alltoall_poll cfg r i s) = heap s"
  "heap (alltoallv_store_displs cfg r s) = heap s"
  "heap (alltoallv_store_buffer cfg r s) = heap s"
  "heap (alltoallv_poll cfg r i s) = heap s"
  by (simp_all add: alltoall_store_buffer_def alltoall_store_ready_def alltoall_poll_def
        alltoallv_store_displs_def alltoallv_store_buffer_def alltoallv_poll_def Let_def
      split: option.splits)

lemma heap_step_alltoall:
  assumes "a2a_inplace cfg q \<and> pc (ranks s q) = FreeTmp \<longrightarrow> scratch_ptr h0 (sendbuf_tmp (ranks s q))"
  shows "heap_step h0 (recvbuf (a2a cfg q)) (heap s) (heap (collAlltoallLocal_step cfg q s))"
  using assms heap_step_alltoall_entry heap_step_alltoall_copy heap_step_free_tmp
  by (simp add: collAlltoallLocal_step_def a2a_inplace_def split: pc.splits)

lemma heap_step_alltoallv:
  assumes "a2av_inplace cfg q \<and> pc (ranks s q) = FreeTmp \<longrightarrow> scratch_ptr h0 (sendbuf_tmp (ranks s q))"
  shows "heap_step h0 (v_recvbuf (a2av cfg q)) (heap s) (heap (collAlltoallvLocal_step cfg q s))"
  using assms heap_step_alltoallv_entry heap_step_alltoallv_copy heap_step_free_tmp
  by (simp add: collAlltoallvLocal_step_def a2av_inplace_def split: pc.splits)

lemma tmp_same_handlers [simp]:
  "sendbuf_tmp (ranks (alltoall_store_buffer cfg r s) q) = sendbuf_tmp (ranks s q)"
  "sendbuf_tmp (ranks (alltoall_store_ready cfg r s) q) = sendbuf_tmp (ranks s q)"
  "sendbuf_tmp (ranks (alltoall_poll cfg r i s) q) = sendbuf_tmp (ranks s q)"
  "sendbuf_tmp (ranks (alltoall_copy cfg r i s) q) = sendbuf_tmp (ranks s q)"
  "sendbuf_tmp (ranks (alltoallv_store_displs cfg r s) q) = sendbuf_tmp (ranks s q)"
  "sendbuf_tmp (ranks (alltoallv_store_buffer cfg r s) q) = sendbuf_tmp (ranks s q)"
  "sendbuf_tmp (ranks (alltoallv_poll cfg r i s) q) = sendbuf_tmp (ranks s q)"
  "sendbuf_tmp (ranks (alltoallv_copy cfg r i s) q) = sendbuf_tmp (ranks s q)"
  "sendbuf_tmp (ranks (free_tmp b r nx s) q) = sendbuf_tmp (ranks s q)"
  by (simp_all add: alltoall_store_buffer_def alltoall_store_ready_def alltoall_poll_def
        alltoall_copy_def alltoallv_store_displs_def alltoallv_store_buffer_def
        alltoallv_poll_def alltoallv_copy_def free_tmp_def Let_def
      split: option.splits prod.splits)

lemma scratch_ptr_mono: "scratch_ptr h tmp \<Longrightarrow> fresh h0 \<le> fresh h \<Longrightarrow> scratch_ptr h0 tmp"
  by (auto simp: scratch_ptr_def split: ptr.splits)

lemma alltoall_entry_scratch:
  assumes "a2a_inplace cfg q" "running (pc (ranks (alltoall_entry cfg q s) q))"
  shows "scratch_ptr (heap s) (sendbuf_tmp (ranks (alltoall_entry cfg q s) q))"
proof (cases "a2a_violated cfg q")
  case True
  then show ?thesis using assms(2) by (simp add: pc_entry(1))
next
  case nv: False
  show ?thesis
  proof (cases "alltoall_scratch_bytes cfg q")
    case None
    then show ?thesis using assms nv
      by (simp add: alltoall_entry_def a2a_inplace_def a2a_violated_def)
  next
    case (Some n)
    obtain tmp h1 where m: "malloc (heap s) n = (tmp, h1)" by (cases "malloc (heap s) n") auto
    show ?thesis
    proof (cases "memcpy h1 tmp (recvbuf (a2a cfg q)) n")
      case None
      then show ?thesis using assms nv Some m
        by (simp add: alltoall_entry_def a2a_inplace_def a2a_violated_def)
    next
      case (Some h2)
      then show ?thesis
        using assms nv \<open>alltoall_scratch_bytes cfg q = Some n\<close> m heap_step_inplace(2)[OF m Some]
        by (simp add: alltoall_entry_def a2a_inplace_def a2a_violated_def)
    qed
  qed
qed

lemma alltoallv_entry_scratch:
  assumes "a2av_inplace cfg q" "running (pc (ranks (alltoallv_entry cfg q s) q))"
  shows "scratch_ptr (heap s) (sendbuf_tmp (ranks (alltoallv_entry cfg q s) q))"
proof (cases "a2av_violated cfg q")
  case True
  then show ?thesis using assms(2) by (simp add: pc_v_entry(1))
next
  case nv: False
  show ?thesis
  proof (cases "alltoallv_scratch_bytes cfg q")
    case None
    then show ?thesis using assms nv
      by (simp add: alltoallv_entry_def a2av_inplace_def a2av_violated_def)
  next
    case (Some n)
    obtain tmp h1 where m: "malloc (heap s) n = (tmp, h1)" by (cases "malloc (heap s) n") auto
    show ?thesis
    proof (cases "memcpy h1 tmp (v_recvbuf (a2av cfg q)) n")
      case None
      then show ?thesis using assms nv Some m
        by (simp add: alltoallv_entry_def a2av_inplace_def a2av_violated_def)
    next
      case (Some h2)
      then show ?thesis
        using assms nv \<open>alltoallv_scratch_bytes cfg q = Some n\<close> m heap_step_inplace(2)[OF m Some]
        by (simp add: alltoallv_entry_def a2av_inplace_def a2av_violated_def)
    qed
  qed
qed

lemma alltoall_scratch_step:
  assumes "a2a_inplace cfg q"
    and "running (pc (ranks s q)) \<longrightarrow> scratch_ptr h0 (sendbuf_tmp (ranks s q))"
    and "fresh h0 \<le> fresh (heap s)"
    and "running (pc (ranks (collAlltoallLocal_step cfg q s) q))"
  shows "scratch_ptr h0 (sendbuf_tmp (ranks (collAlltoallLocal_step cfg q s) q))"
proof (cases "nranks cfg \<le> q")
  case True
  then show ?thesis using assms by (simp add: collAlltoallLocal_step_def)
next
  case False
  show ?thesis
  proof (cases "pc (ranks s q)")
    case Entry
    then show ?thesis
      using assms False scratch_ptr_mono[OF alltoall_entry_scratch[of cfg q s] assms(3)]
      by (simp add: collAlltoallLocal_step_def)
  next
    case (BarrierWait g)
    then show ?thesis using assms False
      by (simp add: collAlltoallLocal_step_def collBarrierLocal_wait_def)
  qed (use assms False in \<open>simp_all add: collAlltoallLocal_step_def\<close>)
qed

lemma alltoallv_scratch_step:
  assumes "a2av_inplace cfg q"
    and "running (pc (ranks s q)) \<longrightarrow> scratch_ptr h0 (sendbuf_tmp (ranks s q))"
    and "fresh h0 \<le> fresh (heap s)"
    and "running (pc (ranks (collAlltoallvLocal_step cfg q s) q))"
  shows "scratch_ptr h0 (sendbuf_tmp (ranks (collAlltoallvLocal_step cfg q s) q))"
proof (cases "nranks cfg \<le> q")
  case True
  then show ?thesis using assms by (simp add: collAlltoallvLocal_step_def)
next
  case False
  show ?thesis
  proof (cases "pc (ranks s q)")
    case Entry
    then show ?thesis
      using assms False scratch_ptr_mono[OF alltoallv_entry_scratch[of cfg q s] assms(3)]
      by (simp add: collAlltoallvLocal_step_def)
  next
    case (BarrierWait g)
    then show ?thesis using assms False
      by (simp add: collAlltoallvLocal_step_def collBarrierLocal_wait_def)
  qed (use assms False in \<open>simp_all add: collAlltoallvLocal_step_def\<close>)
qed

lemma frame_inv_step_generic:
  assumes inv: "frame_inv h0 n rcv inpl s"
    and hs: "q < n \<Longrightarrow> heap_step h0 (rcv q) (heap s) (heap s')"
    and out: "\<not> q < n \<Longrightarrow> s' = s"
    and oth: "others_same q s s'"
    and own: "q < n \<Longrightarrow> inpl q \<Longrightarrow> running (pc (ranks s' q))
                \<Longrightarrow> scratch_ptr h0 (sendbuf_tmp (ranks s' q))"
  shows "frame_inv h0 n rcv inpl s'"
proof (cases "q < n")
  case False
  then show ?thesis using inv out by simp
next
  case True
  note hs = hs[OF True]
  have f: "fresh h0 \<le> fresh (heap s')" using inv hs by (auto simp: frame_inv_def heap_step_def)
  have fr: "blocks (heap s') b = blocks h0 b"
    if "b < fresh h0" "\<forall>r<n. blk_of (rcv r) \<noteq> Some b" for b
  proof -
    have "b < fresh (heap s)" "blk_of (rcv q) \<noteq> Some b" "blocks (heap s) b = blocks h0 b"
      using inv that True by (auto simp: frame_inv_def)
    then show ?thesis using hs that(1) by (auto simp: heap_step_def)
  qed
  have sc: "scratch_ptr h0 (sendbuf_tmp (ranks s' r))"
    if "r < n" "inpl r" "running (pc (ranks s' r))" for r
  proof (cases "r = q")
    case True
    then show ?thesis using own that by simp
  next
    case False
    then have "ranks s' r = ranks s r" using oth by (simp add: others_same_def)
    then show ?thesis using inv that by (simp add: frame_inv_def)
  qed
  show ?thesis using f fr sc by (simp add: frame_inv_def)
qed

lemma frame_inv_alltoall_step:
  assumes "frame_inv h0 (nranks cfg) (\<lambda>r. recvbuf (a2a cfg r)) (a2a_inplace cfg) s"
  shows "frame_inv h0 (nranks cfg) (\<lambda>r. recvbuf (a2a cfg r)) (a2a_inplace cfg)
           (collAlltoallLocal_step cfg q s)"
proof (rule frame_inv_step_generic[OF assms, of q])
  assume q: "q < nranks cfg"
  have sp: "a2a_inplace cfg q \<and> running (pc (ranks s q))
              \<longrightarrow> scratch_ptr h0 (sendbuf_tmp (ranks s q))"
    using assms q by (simp add: frame_inv_def)
  then show "heap_step h0 (recvbuf (a2a cfg q)) (heap s) (heap (collAlltoallLocal_step cfg q s))"
    by (intro heap_step_alltoall) auto
  show "scratch_ptr h0 (sendbuf_tmp (ranks (collAlltoallLocal_step cfg q s) q))"
    if "a2a_inplace cfg q" "running (pc (ranks (collAlltoallLocal_step cfg q s) q))"
    using alltoall_scratch_step[OF that(1) _ _ that(2), of h0] sp that(1) assms
    by (simp add: frame_inv_def)
next
  show "collAlltoallLocal_step cfg q s = s" if "\<not> q < nranks cfg"
    using that by (simp add: collAlltoallLocal_step_def)
  show "others_same q s (collAlltoallLocal_step cfg q s)" by (rule alltoall_step_others)
qed

lemma frame_inv_alltoallv_step:
  assumes "frame_inv h0 (nranks cfg) (\<lambda>r. v_recvbuf (a2av cfg r)) (a2av_inplace cfg) s"
  shows "frame_inv h0 (nranks cfg) (\<lambda>r. v_recvbuf (a2av cfg r)) (a2av_inplace cfg)
           (collAlltoallvLocal_step cfg q s)"
proof (rule frame_inv_step_generic[OF assms, of q])
  assume q: "q < nranks cfg"
  have sp: "a2av_inplace cfg q \<and> running (pc (ranks s q))
              \<longrightarrow> scratch_ptr h0 (sendbuf_tmp (ranks s q))"
    using assms q by (simp add: frame_inv_def)
  then show "heap_step h0 (v_recvbuf (a2av cfg q)) (heap s)
               (heap (collAlltoallvLocal_step cfg q s))"
    by (intro heap_step_alltoallv) auto
  show "scratch_ptr h0 (sendbuf_tmp (ranks (collAlltoallvLocal_step cfg q s) q))"
    if "a2av_inplace cfg q" "running (pc (ranks (collAlltoallvLocal_step cfg q s) q))"
    using alltoallv_scratch_step[OF that(1) _ _ that(2), of h0] sp that(1) assms
    by (simp add: frame_inv_def)
next
  show "collAlltoallvLocal_step cfg q s = s" if "\<not> q < nranks cfg"
    using that by (simp add: collAlltoallvLocal_step_def)
  show "others_same q s (collAlltoallvLocal_step cfg q s)" by (rule alltoallv_step_others)
qed

lemma frame_inv_start: "frame_inv h0 n rcv inpl (start_state h0 k)"
  by (simp add: frame_inv_def start_state_def)

lemma frame_inv_alltoall_run:
  "frame_inv h0 (nranks cfg) (\<lambda>r. recvbuf (a2a cfg r)) (a2a_inplace cfg)
     (run (collAlltoallLocal_step cfg) sched (start_state h0 k))"
proof -
  have "frame_inv h0 (nranks cfg) (\<lambda>r. recvbuf (a2a cfg r)) (a2a_inplace cfg) s \<Longrightarrow>
        frame_inv h0 (nranks cfg) (\<lambda>r. recvbuf (a2a cfg r)) (a2a_inplace cfg)
          (run (collAlltoallLocal_step cfg) sched s)" for s
    by (induction sched arbitrary: s) (simp_all add: frame_inv_alltoall_step)
  then show ?thesis using frame_inv_start by blast
qed

lemma frame_inv_alltoallv_run:
  "frame_inv h0 (nranks cfg) (\<lambda>r. v_recvbuf (a2av cfg r)) (a2av_inplace cfg)
     (run (collAlltoallvLocal_step cfg) sched (start_state h0 k))"
proof -
  have "frame_inv h0 (nranks cfg) (\<lambda>r. v_recvbuf (a2av cfg r)) (a2av_inplace cfg) s \<Longrightarrow>
        frame_inv h0 (nranks cfg) (\<lambda>r. v_recvbuf (a2av cfg r)) (a2av_inplace cfg)
          (run (collAlltoallvLocal_step cfg) sched s)" for s
    by (induction sched arbitrary: s) (simp_all add: frame_inv_alltoallv_step)
  then show ?thesis using frame_inv_start by blast
qed

lemma overwrite_all: "length ys = length xs \<Longrightarrow> overwrite xs 0 ys = ys"
  by (simp add: overwrite_def)

lemma alltoallv_scratch_bytes_SomeD:
  assumes "alltoallv_scratch_bytes cfg r = Some n"
  shows "n = a2av_bytes cfg r"
    "arr_read (v_sdispls (a2av cfg r)) (global_comm_size (comm cfg r) - 1) \<noteq> None"
    "arr_read (v_sendcounts (a2av cfg r)) (global_comm_size (comm cfg r) - 1) \<noteq> None"
  using assms alltoallv_scratch_bytes_eq[OF assms]
  by (auto simp: alltoallv_scratch_bytes_def Let_def int_sub_def split: option.splits if_splits)

lemma inplace_copy_result:
  assumes m: "malloc h n = (tmp, h1)" and c: "memcpy h1 tmp rcv n = Some h2"
    and u: "user_ptr h rcv"
  shows "blocks h2 (fresh h) = Some (segment (block_of h rcv) (nat (off_of rcv)) n)"
    and "length (segment (block_of h rcv) (nat (off_of rcv)) n) = n"
    and "0 \<le> off_of rcv" and "rcv \<noteq> Null"
    and "nat (off_of rcv) + n \<le> length (block_of h rcv)"
proof -
  have t: "tmp = Ptr (fresh h) 0" and h1: "blocks h1 (fresh h) = Some (replicate n 0)"
    "\<forall>b. b \<noteq> fresh h \<longrightarrow> blocks h1 b = blocks h b"
    using m c by (cases rule: malloc_cases[of h n]; auto)+
  from c obtain bs os sd where r: "rcv = Ptr bs os" and sd: "blocks h1 bs = Some sd"
    and b: "0 \<le> os" "nat os + n \<le> length sd"
    and h2: "h2 = h1\<lparr>blocks := (blocks h1)(fresh h \<mapsto>
                overwrite (replicate n 0) 0 (segment sd (nat os) n))\<rparr>"
    using t h1(1) by (cases rule: memcpy_SomeD) auto
  have "bs \<noteq> fresh h" using u r by (simp add: user_ptr_def)
  then have "blocks h bs = Some sd" using h1(2) sd by simp
  then have bo: "block_of h (Ptr bs os) = sd" by (simp add: block_of_def)
  have l: "length (segment sd (nat os) n) = n" using b by (simp add: length_segment)
  show "blocks h2 (fresh h) = Some (segment (block_of h rcv) (nat (off_of rcv)) n)"
    using h2 l by (simp add: bo r overwrite_all)
  show "length (segment (block_of h rcv) (nat (off_of rcv)) n) = n" using l by (simp add: bo r)
  show "0 \<le> off_of rcv" "rcv \<noteq> Null" "nat (off_of rcv) + n \<le> length (block_of h rcv)"
    using b r bo by simp_all
qed

lemma recv_image_0 [simp]: "recv_image d0 wr n r 0 = d0"
  by (simp add: recv_image_def)

lemma recv_image_Suc:
  "recv_image d0 wr n r (Suc m) =
     overwrite (recv_image d0 wr n r m) (fst (wr (ring_peer n r (Suc m))))
       (snd (wr (ring_peer n r (Suc m))))"
  by (simp add: recv_image_def)

lemma length_recv_image:
  assumes "\<forall>j. 1 \<le> j \<and> j \<le> m \<longrightarrow>
             fst (wr (ring_peer n r j)) + length (snd (wr (ring_peer n r j))) \<le> length d0"
  shows "length (recv_image d0 wr n r m) = length d0"
  using assms
proof (induction m)
  case 0
  then show ?case by simp
next
  case (Suc m)
  then have "length (recv_image d0 wr n r m) = length d0" by simp
  moreover have "fst (wr (ring_peer n r (Suc m))) + length (snd (wr (ring_peer n r (Suc m))))
                   \<le> length d0"
    using Suc.prems by simp
  ultimately show ?case by (simp add: recv_image_Suc length_overwrite)
qed

lemma tmp_ok_heap_step:
  assumes "tmp_ok h0 h sbuf rcv tmp" "heap_step h0 rcv' h h'" "user_ptr h0 rcv'"
  shows "tmp_ok h0 h' sbuf rcv tmp"
proof (cases "sbuf = rcv")
  case False
  then show ?thesis using assms(1) by (simp add: tmp_ok_def)
next
  case True
  then obtain k where t: "tmp = Ptr k 0" and k: "fresh h0 \<le> k" "k < fresh h"
    and r: "rcv \<noteq> Null" "0 \<le> off_of rcv"
    and d: "\<forall>d. blocks h k = Some d \<longrightarrow>
              (\<exists>T. d = segment (block_of h0 rcv) (nat (off_of rcv)) T
                   \<and> nat (off_of rcv) + T \<le> length (block_of h0 rcv))"
    using assms(1) by (auto simp: tmp_ok_def split: ptr.splits)
  have "blk_of rcv' \<noteq> Some k" using assms(3) k(1) by (cases rcv') (auto simp: user_ptr_def)
  then have "blocks h' k = blocks h k \<or> blocks h' k = None"
    using assms(2) k(2) by (auto simp: heap_step_def)
  moreover have "k < fresh h'" using assms(2) k(2) by (auto simp: heap_step_def)
  ultimately show ?thesis using True t k r d by (auto simp: tmp_ok_def)
qed

lemma recv_ok_heap_step:
  assumes "recv_ok h0 h rcv wr full n r m" "heap_step h0 rcv' h h'"
    and "user_ptr h0 rcv" "fresh h0 \<le> fresh h" "rcv = Null \<or> blk_of rcv \<noteq> blk_of rcv'"
  shows "recv_ok h0 h' rcv wr full n r m"
proof (cases rcv)
  case Null
  then show ?thesis using assms(1) by (simp add: recv_ok_def)
next
  case (Ptr b off)
  then have "b < fresh h" "blk_of rcv' \<noteq> Some b"
    using assms(3,4,5) by (auto simp: user_ptr_def)
  moreover have "\<not> fresh h0 \<le> b" using assms(3) Ptr by (simp add: user_ptr_def)
  ultimately have "blocks h' b = blocks h b" using assms(2) by (auto simp: heap_step_def)
  then show ?thesis using assms(1) Ptr by (simp add: recv_ok_def)
qed

lemma rank_inv_other:
  assumes inv: "rank_inv h0 k0 n sbuf rcv tab wr full s r"
    and oth: "ranks s' r = ranks s r"
    and slot: "buffers (local_buffer s' k0) r = buffers (local_buffer s k0) r"
      "displs (local_buffer s' k0) r = displs (local_buffer s k0) r"
    and hs: "heap_step h0 rcv' (heap s) (heap s')" "user_ptr h0 rcv'"
    and u: "user_ptr h0 rcv" "fresh h0 \<le> fresh (heap s)" "rcv = Null \<or> blk_of rcv \<noteq> blk_of rcv'"
  shows "rank_inv h0 k0 n sbuf rcv tab wr full s' r"
  using inv tmp_ok_heap_step[OF _ hs] recv_ok_heap_step[OF _ hs(1) u]
  unfolding rank_inv_def oth slot by blast

lemma rank_inv_pc_only:
  assumes inv: "rank_inv h0 k0 n sbuf rcv tab wr full s r"
    and "heap s' = heap s" "sendbuf_tmp (ranks s' r) = sendbuf_tmp (ranks s r)"
    and "slot_ptr (ranks s' r) = slot_ptr (ranks s r)"
      "current_buffer_idx (ranks s' r) = current_buffer_idx (ranks s r)"
    and "buffers (local_buffer s' k0) r = buffers (local_buffer s k0) r"
      "displs (local_buffer s' k0) r = displs (local_buffer s k0) r"
    and "before_update (pc (ranks s' r)) \<longrightarrow> before_update (pc (ranks s r))"
    and "pc (ranks s' r) \<noteq> Entry"
    and "running (pc (ranks s' r)) \<longrightarrow> running (pc (ranks s r))"
    and "\<forall>m. progress n (pc (ranks s' r)) = Some m \<longrightarrow> progress n (pc (ranks s r)) = Some m"
  shows "rank_inv h0 k0 n sbuf rcv tab wr full s' r"
  using assms unfolding rank_inv_def by auto

lemma ptr_add_PtrD: "ptr_add p d = Ptr b off \<Longrightarrow> p = Ptr b (off - d)"
  by (cases p) auto

lemma off_of_ptr_add: "p \<noteq> Null \<Longrightarrow> off_of (ptr_add p d) = off_of p + d"
  by (cases p) auto

lemma copy_recv_ok:
  assumes ro: "recv_ok h0 h rcv wr full n r m"
    and mc: "memcpy h (ptr_add rcv doff) (ptr_add pub soff) len = Some h'"
    and pt: "tmp_ok h0 h sb rb pub"
    and fr: "sb \<noteq> rb \<Longrightarrow> block_of h sb = block_of h0 sb"
    and w1: "fst (wr p) = nat (off_of rcv + doff)"
    and w2: "snd (wr p) = segment (block_of h0 sb) (nat (off_of sb + soff)) len"
    and fl: "0 \<le> off_of rcv + doff \<and> 0 \<le> off_of sb + soff \<and> length (snd (wr p)) = len
               \<Longrightarrow> full p"
    and p: "p = ring_peer n r (Suc m)"
  shows "recv_ok h0 h' rcv wr full n r (Suc m)"
  using mc
proof (cases rule: memcpy_SomeD)
  case (1 bd od bs os d sd)
  have rcv: "rcv = Ptr bd (od - doff)" using 1(1) by (rule ptr_add_PtrD)
  have pub: "pub = Ptr bs (os - soff)" using 1(2) by (rule ptr_add_PtrD)
  have od: "off_of rcv + doff = od" using rcv by simp
  have bounds: "\<forall>j. 1 \<le> j \<and> j \<le> m \<longrightarrow>
      fst (wr (ring_peer n r j)) + length (snd (wr (ring_peer n r j))) \<le> length (block_of h0 rcv)"
    using ro by (simp add: recv_ok_def)
  have d: "d = recv_image (block_of h0 rcv) wr n r m"
  proof (cases "m = 0")
    case True
    then have "blocks h0 bd = Some d" using ro 1(3) rcv by (simp add: recv_ok_def)
    then show ?thesis using True rcv by (simp add: block_of_def)
  next
    case False
    then show ?thesis using ro 1(3) rcv by (simp add: recv_ok_def)
  qed
  have ld: "length d = length (block_of h0 rcv)"
    unfolding d by (rule length_recv_image[OF bounds])
  have data: "segment sd (nat os) len = snd (wr p) \<and> 0 \<le> off_of sb + soff"
  proof (cases "sb = rb")
    case True
    then obtain k where k: "pub = Ptr k 0" and r: "rb \<noteq> Null" "0 \<le> off_of rb"
      and dd: "\<forall>d. blocks h k = Some d \<longrightarrow>
              (\<exists>T. d = segment (block_of h0 rb) (nat (off_of rb)) T
                   \<and> nat (off_of rb) + T \<le> length (block_of h0 rb))"
      using pt by (auto simp: tmp_ok_def split: ptr.splits)
    have bs: "bs = k" "os = soff" using pub k by simp_all
    then obtain T where T: "sd = segment (block_of h0 rb) (nat (off_of rb)) T"
      "nat (off_of rb) + T \<le> length (block_of h0 rb)"
      using dd 1(4) by auto
    have "length sd = T" unfolding T(1) using T(2) by (rule length_segment)
    then have "nat soff + len \<le> T" using 1(8) bs by simp
    then have "segment sd (nat soff) len
                 = segment (block_of h0 rb) (nat (off_of rb) + nat soff) len"
      unfolding T(1) by (rule segment_segment)
    moreover have "nat (off_of rb) + nat soff = nat (off_of rb + soff)"
      using r(2) 1(6) bs by simp
    ultimately show ?thesis using w2 True bs r(2) 1(6) by simp
  next
    case False
    then have ps: "pub = sb" using pt by (simp add: tmp_ok_def)
    then have sbp: "sb = Ptr bs (os - soff)" using pub by simp
    have "block_of h sb = sd" unfolding sbp using 1(4) by (simp add: block_of_def)
    then have "block_of h0 sb = sd" using fr[OF False] by simp
    moreover have "off_of sb + soff = os" unfolding sbp by simp
    ultimately show ?thesis using w2 1(6) by simp
  qed
  have "length (segment sd (nat os) len) = len" using 1(8) by (rule length_segment)
  then have ldata: "length (snd (wr p)) = len" using data by simp
  have f: "full p" using fl od 1(5) data ldata by simp
  have b: "fst (wr p) + length (snd (wr p)) \<le> length (block_of h0 rcv)"
    using w1 od ldata 1(7) ld by simp
  have img: "overwrite d (nat od) (segment sd (nat os) len)
               = recv_image (block_of h0 rcv) wr n r (Suc m)"
    unfolding recv_image_Suc p[symmetric] d using data w1 od by simp
  have all: "\<forall>j. 1 \<le> j \<and> j \<le> Suc m \<longrightarrow>
      full (ring_peer n r j)
      \<and> fst (wr (ring_peer n r j)) + length (snd (wr (ring_peer n r j)))
          \<le> length (block_of h0 rcv)"
  proof (intro allI impI)
    fix j assume j: "1 \<le> j \<and> j \<le> Suc m"
    show "full (ring_peer n r j)
      \<and> fst (wr (ring_peer n r j)) + length (snd (wr (ring_peer n r j)))
          \<le> length (block_of h0 rcv)"
    proof (cases "j = Suc m")
      case True
      then show ?thesis using f b p by simp
    next
      case False
      then have "1 \<le> j \<and> j \<le> m" using j by simp
      then show ?thesis using ro by (simp add: recv_ok_def)
    qed
  qed
  show ?thesis
    using all img 1(9) rcv by (simp add: recv_ok_def)
qed

lemma inplace_tmp_ok:
  assumes m: "malloc h n = (tmp, h1)" and c: "memcpy h1 tmp rcv n = Some h2"
    and u: "user_ptr h0 rcv" and f: "fresh h0 \<le> fresh h"
    and b: "block_of h rcv = block_of h0 rcv"
  shows "tmp_ok h0 h2 rcv rcv tmp"
proof -
  have u': "user_ptr h rcv" using u f by (auto simp: user_ptr_def split: ptr.splits)
  note r = inplace_copy_result[OF m c u']
  have t: "tmp = Ptr (fresh h) 0" "fresh h1 = Suc (fresh h)"
    using heap_step_inplace(3,4)[OF m c] by simp_all
  have "fresh h2 = fresh h1" using c by (cases rule: memcpy_SomeD) simp
  then show ?thesis using r t f b unfolding tmp_ok_def by auto
qed

lemma index_of_rank:
  "comm_ok cfg \<Longrightarrow> q < nranks cfg \<Longrightarrow> index_of (global_rank (comm cfg q)) = Some q"
  by (simp add: comm_ok_def index_of_def)

lemma slot_others_basic [simp]:
  "slot_others q s s"
  "slot_others q s (goto r p s') = slot_others q s s'"
  "slot_others q s (emit r e s') = slot_others q s s'"
  "slot_others q s (fault r s') = slot_others q s s'"
  "slot_others q s (abort r s') = slot_others q s s'"
  "slot_others q s (set_rank r f s') = slot_others q s s'"
  "slot_others q s (s'\<lparr>heap := h\<rparr>) = slot_others q s s'"
  "slot_others q s (collBarrierLocal_arrive cfg r s') = slot_others q s s'"
  "slot_others q s (collBarrierLocal_wait r g nx s') = slot_others q s s'"
  by (simp_all add: slot_others_def collBarrierLocal_wait_def)

lemma slot_others_handlers:
  assumes "comm_ok cfg" "q < nranks cfg"
  shows "slot_others q s (alltoall_entry cfg q s)"
    "slot_others q s (alltoall_store_buffer cfg q s)"
    "slot_others q s (alltoall_store_ready cfg q s)"
    "slot_others q s (alltoall_poll cfg q i s)"
    "slot_others q s (alltoall_copy cfg q i s)"
    "slot_others q s (alltoallv_entry cfg q s)"
    "slot_others q s (alltoallv_store_displs cfg q s)"
    "slot_others q s (alltoallv_store_buffer cfg q s)"
    "slot_others q s (alltoallv_poll cfg q i s)"
    "slot_others q s (alltoallv_copy cfg q i s)"
    "slot_others q s (free_tmp b q nx s)"
    "slot_others q s (collUpdateBuffer cfg q s)"
  using index_of_rank[OF assms] assms
  by (simp_all add: alltoall_entry_def alltoall_store_buffer_def alltoall_store_ready_def
        alltoall_poll_def alltoall_copy_def alltoallv_entry_def alltoallv_store_displs_def
        alltoallv_store_buffer_def alltoallv_poll_def alltoallv_copy_def free_tmp_def
        collUpdateBuffer_def comm_ok_def Let_def
        slot_others_def[of _ _ "set_slot _ _ _"] slot_others_def[of _ _ "set_rank _ _ _"]
      split: option.splits prod.splits)

lemma slot_others_alltoall:
  assumes "comm_ok cfg"
  shows "slot_others q s (collAlltoallLocal_step cfg q s)"
  using slot_others_handlers[OF assms, of q]
  by (simp add: collAlltoallLocal_step_def split: pc.splits)

lemma slot_others_alltoallv:
  assumes "comm_ok cfg"
  shows "slot_others q s (collAlltoallvLocal_step cfg q s)"
  using slot_others_handlers[OF assms, of q]
  by (simp add: collAlltoallvLocal_step_def split: pc.splits)

lemma rank_inv_fault:
  assumes "rank_inv h0 k0 n sb rcv tab wr full s r"
    and "heap_step h0 rcv' (heap s) h'" "user_ptr h0 rcv'"
  shows "rank_inv h0 k0 n sb rcv tab wr full (fault r (s\<lparr>heap := h'\<rparr>)) r"
  using assms(1) tmp_ok_heap_step[OF _ assms(2,3)]
  unfolding rank_inv_def by auto

lemma rank_inv_fault_same:
  assumes "rank_inv h0 k0 n sb rcv tab wr full s r"
  shows "rank_inv h0 k0 n sb rcv tab wr full (fault r s) r"
  using rank_inv_fault[OF assms heap_step_refl[of h0 Null "heap s"]]
  by (simp add: user_ptr_def)

lemma user_ptr_Null [simp]: "user_ptr h Null"
  by (simp add: user_ptr_def)

lemma recv_ok_0_block:
  assumes "recv_ok h0 h rcv wr full n r 0"
  shows "block_of h rcv = block_of h0 rcv"
  using assms by (cases rcv) (simp_all add: recv_ok_def block_of_def)

lemma recv_ok_keep:
  assumes "recv_ok h0 h rcv wr full n r m" "heap_step h0 Null h h'"
    and "user_ptr h0 rcv" "fresh h0 \<le> fresh h"
  shows "recv_ok h0 h' rcv wr full n r m"
  using recv_ok_heap_step[OF assms(1,2,3,4)] by (cases rcv) auto

lemma rank_inv_entry_generic:
  assumes inv: "rank_inv h0 k0 n sb rcv tab wr full s r"
    and pc: "pc (ranks s r) = Entry"
    and u: "user_ptr h0 rcv" and f: "fresh h0 \<le> fresh (heap s)"
    and s': "s' = abort r s \<or> s' = fault r s
        \<or> (sb \<noteq> rcv \<and> s' = goto r nx (set_rank r (\<lambda>t. t\<lparr>sendbuf_tmp := sb\<rparr>) s))
        \<or> (sb = rcv \<and> (\<exists>bytes tmp h1. malloc (heap s) bytes = (tmp, h1)
              \<and> (memcpy h1 tmp rcv bytes = None \<and> s' = fault r (s\<lparr>heap := h1\<rparr>)
                 \<or> (\<exists>h2. memcpy h1 tmp rcv bytes = Some h2
                      \<and> s' = emit r (EvMalloc bytes)
                              (goto r nx (set_rank r (\<lambda>t. t\<lparr>sendbuf_tmp := tmp\<rparr>)
                                            (s\<lparr>heap := h2\<rparr>)))))))"
    and nx: "nx = StoreBuffer \<or> nx = StoreDispls"
  shows "rank_inv h0 k0 n sb rcv tab wr full s' r"
proof -
  have b0: "buffers (local_buffer s k0) r = Null" using inv pc by (simp add: rank_inv_def)
  have r0: "recv_ok h0 (heap s) rcv wr full n r 0" using inv pc by (simp add: rank_inv_def)
  have k: "slot_ptr (ranks s r) = k0 \<and> current_buffer_idx (ranks s r) = k0"
    using inv pc by (simp add: rank_inv_def)
  have d: "displs (local_buffer s k0) r \<noteq> None \<longrightarrow> displs (local_buffer s k0) r = tab"
    using inv by (simp add: rank_inv_def)
  from s' show ?thesis
  proof (elim disjE conjE exE)
    assume "s' = abort r s"
    then show ?thesis using b0 d by (simp add: rank_inv_def)
  next
    assume "s' = fault r s"
    then show ?thesis using rank_inv_fault_same[OF inv] by simp
  next
    assume "sb \<noteq> rcv" "s' = goto r nx (set_rank r (\<lambda>t. t\<lparr>sendbuf_tmp := sb\<rparr>) s)"
    then show ?thesis using b0 d r0 k nx by (auto simp: rank_inv_def tmp_ok_def)
  next
    fix bytes tmp h1
    assume m: "malloc (heap s) bytes = (tmp, h1)"
      and "memcpy h1 tmp rcv bytes = None" "s' = fault r (s\<lparr>heap := h1\<rparr>)"
    then show ?thesis using rank_inv_fault[OF inv heap_step_malloc[OF m, of h0 Null]] by simp
  next
    fix bytes tmp h1 h2
    assume e: "sb = rcv" and m: "malloc (heap s) bytes = (tmp, h1)"
      and c: "memcpy h1 tmp rcv bytes = Some h2"
      and s2: "s' = emit r (EvMalloc bytes)
                      (goto r nx (set_rank r (\<lambda>t. t\<lparr>sendbuf_tmp := tmp\<rparr>) (s\<lparr>heap := h2\<rparr>)))"
    have t: "tmp_ok h0 h2 sb rcv tmp"
      using inplace_tmp_ok[OF m c u f recv_ok_0_block[OF r0]] e by simp
    have r2: "recv_ok h0 h2 rcv wr full n r 0"
      using recv_ok_keep[OF r0 heap_step_inplace(1)[OF m c] u f] .
    show ?thesis using s2 b0 d k t r2 nx by (auto simp: rank_inv_def)
  qed
qed

lemma alltoall_entry_outcome:
  "alltoall_entry cfg r s = abort r s \<or> alltoall_entry cfg r s = fault r s
   \<or> (sendbuf (a2a cfg r) \<noteq> recvbuf (a2a cfg r)
        \<and> alltoall_entry cfg r s
            = goto r StoreBuffer (set_rank r (\<lambda>t. t\<lparr>sendbuf_tmp := sendbuf (a2a cfg r)\<rparr>) s))
   \<or> (sendbuf (a2a cfg r) = recvbuf (a2a cfg r)
        \<and> (\<exists>bytes tmp h1. malloc (heap s) bytes = (tmp, h1)
              \<and> (memcpy h1 tmp (recvbuf (a2a cfg r)) bytes = None
                    \<and> alltoall_entry cfg r s = fault r (s\<lparr>heap := h1\<rparr>)
                 \<or> (\<exists>h2. memcpy h1 tmp (recvbuf (a2a cfg r)) bytes = Some h2
                      \<and> alltoall_entry cfg r s
                          = emit r (EvMalloc bytes)
                              (goto r StoreBuffer (set_rank r (\<lambda>t. t\<lparr>sendbuf_tmp := tmp\<rparr>)
                                            (s\<lparr>heap := h2\<rparr>)))))))"
proof (cases "alltoall_scratch_bytes cfg r")
  case None
  then show ?thesis by (simp add: alltoall_entry_def Let_def)
next
  case (Some bytes)
  obtain tmp h1 where m: "malloc (heap s) bytes = (tmp, h1)"
    by (cases "malloc (heap s) bytes") auto
  show ?thesis
  proof (cases "memcpy h1 tmp (recvbuf (a2a cfg r)) bytes")
    case None
    then show ?thesis using Some m by (auto simp: alltoall_entry_def Let_def)
  next
    case c: (Some h2)
    then show ?thesis using Some m by (auto simp: alltoall_entry_def Let_def)
  qed
qed

lemma alltoallv_entry_outcome:
  "alltoallv_entry cfg r s = abort r s \<or> alltoallv_entry cfg r s = fault r s
   \<or> (v_sendbuf (a2av cfg r) \<noteq> v_recvbuf (a2av cfg r)
        \<and> alltoallv_entry cfg r s
            = goto r StoreDispls
                (set_rank r (\<lambda>t. t\<lparr>sendbuf_tmp := v_sendbuf (a2av cfg r)\<rparr>) s))
   \<or> (v_sendbuf (a2av cfg r) = v_recvbuf (a2av cfg r)
        \<and> (\<exists>bytes tmp h1. malloc (heap s) bytes = (tmp, h1)
              \<and> (memcpy h1 tmp (v_recvbuf (a2av cfg r)) bytes = None
                    \<and> alltoallv_entry cfg r s = fault r (s\<lparr>heap := h1\<rparr>)
                 \<or> (\<exists>h2. memcpy h1 tmp (v_recvbuf (a2av cfg r)) bytes = Some h2
                      \<and> alltoallv_entry cfg r s
                          = emit r (EvMalloc bytes)
                              (goto r StoreDispls (set_rank r (\<lambda>t. t\<lparr>sendbuf_tmp := tmp\<rparr>)
                                            (s\<lparr>heap := h2\<rparr>)))))))"
proof (cases "alltoallv_scratch_bytes cfg r")
  case None
  then show ?thesis by (simp add: alltoallv_entry_def Let_def)
next
  case (Some bytes)
  obtain tmp h1 where m: "malloc (heap s) bytes = (tmp, h1)"
    by (cases "malloc (heap s) bytes") auto
  show ?thesis
  proof (cases "memcpy h1 tmp (v_recvbuf (a2av cfg r)) bytes")
    case None
    then show ?thesis using Some m by (auto simp: alltoallv_entry_def Let_def)
  next
    case c: (Some h2)
    then show ?thesis using Some m by (auto simp: alltoallv_entry_def Let_def)
  qed
qed

lemma tmp_ok_scratch_ptr:
  "tmp_ok h0 h sb rcv tmp \<Longrightarrow> sb = rcv \<Longrightarrow> scratch_ptr h0 tmp"
  by (auto simp: tmp_ok_def scratch_ptr_def split: ptr.splits)

lemma rank_inv_free:
  assumes inv: "rank_inv h0 k0 n sb rcv tab wr full s r"
    and pc: "pc (ranks s r) = FreeTmp"
    and u: "user_ptr h0 rcv" and f: "fresh h0 \<le> fresh (heap s)"
    and nx: "nx = Update \<or> nx = FenceB"
  shows "rank_inv h0 k0 n sb rcv tab wr full (free_tmp (sb = rcv) r nx s) r"
proof (cases "sb = rcv")
  case False
  then show ?thesis using inv pc nx by (auto simp: free_tmp_def rank_inv_def)
next
  case True
  have t: "tmp_ok h0 (heap s) sb rcv (sendbuf_tmp (ranks s r))"
    using inv pc by (simp add: rank_inv_def)
  show ?thesis
  proof (cases "free (heap s) (sendbuf_tmp (ranks s r))")
    case None
    then show ?thesis using True rank_inv_fault_same[OF inv] by (simp add: free_tmp_def)
  next
    case (Some h')
    have hs: "heap_step h0 Null (heap s) h'"
      using heap_step_free[OF Some tmp_ok_scratch_ptr[OF t True]] .
    have t': "tmp_ok h0 h' sb rcv (sendbuf_tmp (ranks s r))"
      using tmp_ok_heap_step[OF t hs] by simp
    have r': "recv_ok h0 h' rcv wr full n r n"
      using recv_ok_keep[OF _ hs u f] inv pc by (simp add: rank_inv_def)
    show ?thesis using True Some inv pc t' r' nx
      by (auto simp: free_tmp_def rank_inv_def)
  qed
qed

lemma rank_inv_update:
  assumes inv: "rank_inv h0 k0 n sb rcv tab wr full s r"
    and pc: "pc (ranks s r) = Update \<or> pc (ranks s r) = FenceB"
    and nx: "nx = FenceB \<or> nx = Ret" and c: "nat (global_rank (comm cfg r)) = r"
  shows "rank_inv h0 k0 n sb rcv tab wr full (emit r EvUpdate (goto r nx (collUpdateBuffer cfg r s))) r"
  using inv pc nx c
  by (auto simp: rank_inv_def collUpdateBuffer_def Let_def)

lemma send_block_kept:
  assumes f: "frame_inv h0 n rcv inpl s" and sep: "buffers_separate n sb rcv"
    and p: "p < n" and u: "user_ptr h0 (sb p)" and ne: "sb p \<noteq> rcv p"
  shows "block_of (heap s) (sb p) = block_of h0 (sb p)"
proof (cases "sb p")
  case Null
  then show ?thesis by (simp add: block_of_def)
next
  case (Ptr b off)
  have b: "b < fresh h0" using u Ptr by (simp add: user_ptr_def)
  have "\<forall>r<n. blk_of (rcv r) \<noteq> Some b"
  proof (intro allI impI notI)
    fix r assume r: "r < n" and e: "blk_of (rcv r) = Some b"
    then have "rcv r \<noteq> Null \<and> blk_of (rcv r) = blk_of (sb p)" using Ptr by auto
    then have "sb p = rcv p" using sep r p unfolding buffers_separate_def by blast
    then show False using ne by simp
  qed
  then have "blocks (heap s) b = blocks h0 b" using f b unfolding frame_inv_def by blast
  then show ?thesis using Ptr by (simp add: block_of_def)
qed

lemma rank_inv_copied:
  assumes inv: "rank_inv h0 k0 n sb rcv tab wr full s r"
    and pc: "pc (ranks s r) = Copy i" "1 \<le> i"
    and hs: "heap_step h0 rcv (heap s) h" and u: "user_ptr h0 rcv"
    and ro: "recv_ok h0 h rcv wr full n r (nat i)"
  shows "rank_inv h0 k0 n sb rcv tab wr full (emit r e (goto r (Poll (i + 1)) (s\<lparr>heap := h\<rparr>))) r"
proof -
  have t: "tmp_ok h0 h sb rcv (sendbuf_tmp (ranks s r))"
    using inv pc tmp_ok_heap_step[OF _ hs u] by (simp add: rank_inv_def)
  show ?thesis using inv pc t ro by (auto simp: rank_inv_def)
qed

lemma rank_inv_published:
  assumes "rank_inv h0 k0 n sb rcv tab wr full s p" "buffers (local_buffer s k0) p \<noteq> Null"
  shows "tmp_ok h0 (heap s) sb rcv (buffers (local_buffer s k0) p)"
  using assms by (auto simp: rank_inv_def)

lemma memcpy_src_Null [simp]: "memcpy h dst Null n = None"
  by (simp add: memcpy_def split: ptr.splits)

lemma a2a_copy_bounds:
  assumes "a2a_rank_trace cfg s r" "pc (ranks s r) = Copy i"
  shows "1 \<le> i \<and> i \<le> int (nranks cfg)"
  using assms by (auto simp: a2a_rank_trace_def a2a_trace_ok_def split: if_splits)

lemma a2a_poll_bounds:
  assumes "a2a_rank_trace cfg s r" "pc (ranks s r) = Poll i"
  shows "1 \<le> i \<and> i \<le> int (nranks cfg) + 1"
  using assms by (auto simp: a2a_rank_trace_def a2a_trace_ok_def split: if_splits)

lemma a2a_rank_ok_copy:
  assumes G: "group_ok cfg h0 (\<lambda>r. sendbuf (a2a cfg r)) (\<lambda>r. recvbuf (a2a cfg r))"
    and inv: "a2a_inv cfg h0 k0 s" and r: "r < nranks cfg" and pc: "pc (ranks s r) = Copy i"
  shows "a2a_rank_ok cfg h0 k0 (alltoall_copy cfg r i s) r"
proof -
  have c: "comm_ok cfg" using G by (simp add: group_ok_def)
  have me: "a2a_rank_ok cfg h0 k0 s r" using inv r by (simp add: a2a_inv_def)
  have tr: "a2a_rank_trace cfg s r" using inv r by (simp add: a2a_inv_def a2a_trace_inv_def a2a_rank_trace_def)
  have ib: "1 \<le> i" "i \<le> int (nranks cfg)" using a2a_copy_bounds[OF tr pc] by auto
  have u: "user_ptr h0 (recvbuf (a2a cfg r))" using G r by (simp add: group_ok_def)
  have fr: "frame_inv h0 (nranks cfg) (\<lambda>r. recvbuf (a2a cfg r)) (a2a_inplace cfg) s"
    using inv by (simp add: a2a_inv_def)
  have k: "slot_ptr (ranks s r) = k0" using me pc by (simp add: a2a_rank_ok_def rank_inv_def)
  show ?thesis
  proof (cases "alltoall_plan cfg r i")
    case None
    then show ?thesis using rank_inv_fault_same[OF me[unfolded a2a_rank_ok_def]]
      by (simp add: alltoall_copy_def a2a_rank_ok_def)
  next
    case (Some pl)
    obtain peer soff doff len where pl: "pl = (peer, soff, doff, len)" by (cases pl) auto
    note pd = alltoall_plan_SomeD[OF c r ib Some[unfolded pl]]
    let ?pub = "buffers (local_buffer s k0) peer"
    show ?thesis
    proof (cases "memcpy (heap s) (ptr_add (recvbuf (a2a cfg r)) doff) (ptr_add ?pub soff) len")
      case None
      then show ?thesis using Some pl k rank_inv_fault_same[OF me[unfolded a2a_rank_ok_def]]
        by (simp add: alltoall_copy_def a2a_rank_ok_def cur_slot_def)
    next
      case mc: (Some h)
      have hs: "heap_step h0 (recvbuf (a2a cfg r)) (heap s) h"
        by (rule heap_step_memcpy_rcv[OF mc]) simp
      have pn: "?pub \<noteq> Null" using mc by (cases ?pub) auto
      have pk: "a2a_rank_ok cfg h0 k0 s peer" using inv pd(2) by (simp add: a2a_inv_def)
      have pt: "tmp_ok h0 (heap s) (sendbuf (a2a cfg peer)) (recvbuf (a2a cfg peer)) ?pub"
        using rank_inv_published[OF pk[unfolded a2a_rank_ok_def] pn] .
      have sep: "buffers_separate (nranks cfg) (\<lambda>r. sendbuf (a2a cfg r)) (\<lambda>r. recvbuf (a2a cfg r))"
        using G by (simp add: group_ok_def)
      have us: "user_ptr h0 (sendbuf (a2a cfg peer))" using G pd(2) by (simp add: group_ok_def)
      have kept: "sendbuf (a2a cfg peer) \<noteq> recvbuf (a2a cfg peer) \<Longrightarrow>
          block_of (heap s) (sendbuf (a2a cfg peer)) = block_of h0 (sendbuf (a2a cfg peer))"
        using send_block_kept[OF fr sep pd(2)] us by simp
      have r0: "recv_ok h0 (heap s) (recvbuf (a2a cfg r)) (a2a_write cfg h0 r) (a2a_full cfg h0 r)
                  (nranks cfg) r (nat (i - 1))"
        using me pc by (simp add: a2a_rank_ok_def rank_inv_def)
      have si: "Suc (nat (i - 1)) = nat i" using ib by simp
      have ro: "recv_ok h0 h (recvbuf (a2a cfg r)) (a2a_write cfg h0 r) (a2a_full cfg h0 r)
                  (nranks cfg) r (Suc (nat (i - 1)))"
      proof (rule copy_recv_ok[OF r0 mc pt kept, where p = peer])
        show "fst (a2a_write cfg h0 r peer) = nat (off_of (recvbuf (a2a cfg r)) + doff)"
          using pd(4) by (simp add: a2a_write_def a2a_dst_off_def)
        show "snd (a2a_write cfg h0 r peer)
                = segment (block_of h0 (sendbuf (a2a cfg peer)))
                    (nat (off_of (sendbuf (a2a cfg peer)) + soff)) len"
          using pd(3,5) by (simp add: a2a_write_def a2a_sent_def a2a_src_off_def)
        show "a2a_full cfg h0 r peer"
          if "0 \<le> off_of (recvbuf (a2a cfg r)) + doff \<and> 0 \<le> off_of (sendbuf (a2a cfg peer)) + soff
               \<and> length (snd (a2a_write cfg h0 r peer)) = len"
          using that pd(3,4,5) by (simp add: a2a_full_def a2a_write_def a2a_dst_off_def a2a_src_off_def)
        show "peer = ring_peer (nranks cfg) r (Suc (nat (i - 1)))" using pd(1) si by simp
      qed
      show ?thesis
      proof (cases "int_add i 1")
        case None
        then show ?thesis
          using Some pl mc k rank_inv_fault[OF me[unfolded a2a_rank_ok_def] hs u]
          by (simp add: alltoall_copy_def a2a_rank_ok_def cur_slot_def)
      next
        case (Some i')
        then have i': "i' = i + 1" by (simp add: int_add_def split: if_splits)
        show ?thesis
          using \<open>alltoall_plan cfg r i = Some pl\<close> pl mc k Some i'
            rank_inv_copied[OF me[unfolded a2a_rank_ok_def] pc ib(1) hs u ro[unfolded si]]
          by (simp add: alltoall_copy_def a2a_rank_ok_def cur_slot_def)
      qed
    qed
  qed
qed

lemma a2a_rank_ok_poll:
  assumes c: "comm_ok cfg" and r: "r < nranks cfg"
    and me: "a2a_rank_ok cfg h0 k0 s r" and tr: "a2a_rank_trace cfg s r"
    and pc: "pc (ranks s r) = Poll i"
  shows "a2a_rank_ok cfg h0 k0 (alltoall_poll cfg r i s) r"
proof -
  have ib: "1 \<le> i" "i \<le> int (nranks cfg) + 1" using a2a_poll_bounds[OF tr pc] by auto
  have n: "global_comm_size (comm cfg r) = int (nranks cfg)" using c r by (simp add: comm_ok_def)
  show ?thesis
  proof (cases "int_add (global_comm_size (comm cfg r)) 1")
    case None
    then show ?thesis using rank_inv_fault_same[OF me[unfolded a2a_rank_ok_def]]
      by (simp add: alltoall_poll_def a2a_rank_ok_def)
  next
    case (Some bound)
    then have b: "bound = int (nranks cfg) + 1" using n by (simp add: int_add_def split: if_splits)
    show ?thesis
    proof (cases "i < bound")
      case False
      then have "nat (i - 1) = nranks cfg" using ib b by simp
      then show ?thesis using Some False pc
        by (auto simp: alltoall_poll_def a2a_rank_ok_def
              intro!: rank_inv_pc_only[OF me[unfolded a2a_rank_ok_def]])
    next
      case True
      show ?thesis
      proof (cases "recvfrom_global_rank (comm cfg r) i")
        case None
        then show ?thesis using Some True rank_inv_fault_same[OF me[unfolded a2a_rank_ok_def]]
          by (simp add: alltoall_poll_def a2a_rank_ok_def)
      next
        case pr: (Some peer)
        show ?thesis using Some True pr pc
          by (auto simp: alltoall_poll_def a2a_rank_ok_def
                intro!: rank_inv_pc_only[OF me[unfolded a2a_rank_ok_def]])
      qed
    qed
  qed
qed

lemma rank_inv_store_buffer:
  assumes inv: "rank_inv h0 k0 n sb rcv tab wr full s r"
    and pc: "pc (ranks s r) = StoreBuffer"
    and nx: "nx = StoreReady \<or> nx = FenceA"
  shows "rank_inv h0 k0 n sb rcv tab wr full
           (emit r e (goto r nx
              (set_slot (current_buffer_idx (ranks s r))
                 (\<lambda>b. b\<lparr>buffers := (buffers b)(r := sendbuf_tmp (ranks s r))\<rparr>)
                 (set_rank r (\<lambda>t. t\<lparr>slot_ptr := current_buffer_idx (ranks s r)\<rparr>) s)))) r"
  using inv pc nx by (auto simp: rank_inv_def)

lemma a2a_rank_ok_simple:
  assumes c: "comm_ok cfg" and r: "r < nranks cfg"
    and me: "a2a_rank_ok cfg h0 k0 s r"
  shows "pc (ranks s r) = StoreBuffer \<Longrightarrow> a2a_rank_ok cfg h0 k0 (alltoall_store_buffer cfg r s) r"
    "pc (ranks s r) = StoreReady \<Longrightarrow> a2a_rank_ok cfg h0 k0 (alltoall_store_ready cfg r s) r"
    "pc (ranks s r) = FenceA \<Longrightarrow> a2a_rank_ok cfg h0 k0 (emit r EvFence (goto r (Poll 1) s)) r"
    "pc (ranks s r) = BarrierEnter \<Longrightarrow> a2a_rank_ok cfg h0 k0 (collBarrierLocal_arrive cfg r s) r"
    "pc (ranks s r) = BarrierWait g \<Longrightarrow> a2a_rank_ok cfg h0 k0 (collBarrierLocal_wait r g FreeTmp s) r"
    "pc (ranks s r) = FenceB \<Longrightarrow> a2a_rank_ok cfg h0 k0 (emit r EvFence (goto r Ret s)) r"
    "pc (ranks s r) = Ret \<Longrightarrow>
       a2a_rank_ok cfg h0 k0 (emit r (EvReturn collSuccess) (goto r (Returned collSuccess) s)) r"
proof -
  note ri = me[unfolded a2a_rank_ok_def]
  show "pc (ranks s r) = StoreBuffer \<Longrightarrow> a2a_rank_ok cfg h0 k0 (alltoall_store_buffer cfg r s) r"
    using rank_inv_store_buffer[OF ri, of StoreReady] index_of_rank[OF c r]
    by (simp add: alltoall_store_buffer_def a2a_rank_ok_def Let_def)
  show "pc (ranks s r) = StoreReady \<Longrightarrow> a2a_rank_ok cfg h0 k0 (alltoall_store_ready cfg r s) r"
    using index_of_rank[OF c r]
    by (auto simp: alltoall_store_ready_def a2a_rank_ok_def intro!: rank_inv_pc_only[OF ri])
  show "pc (ranks s r) = FenceA \<Longrightarrow> a2a_rank_ok cfg h0 k0 (emit r EvFence (goto r (Poll 1) s)) r"
    by (auto simp: a2a_rank_ok_def intro!: rank_inv_pc_only[OF ri])
  show "pc (ranks s r) = BarrierEnter \<Longrightarrow> a2a_rank_ok cfg h0 k0 (collBarrierLocal_arrive cfg r s) r"
    by (auto simp: a2a_rank_ok_def intro!: rank_inv_pc_only[OF ri])
  show "pc (ranks s r) = BarrierWait g \<Longrightarrow> a2a_rank_ok cfg h0 k0 (collBarrierLocal_wait r g FreeTmp s) r"
    by (auto simp: a2a_rank_ok_def collBarrierLocal_wait_def intro!: rank_inv_pc_only[OF ri])
  show "pc (ranks s r) = FenceB \<Longrightarrow> a2a_rank_ok cfg h0 k0 (emit r EvFence (goto r Ret s)) r"
    by (auto simp: a2a_rank_ok_def intro!: rank_inv_pc_only[OF ri])
  show "pc (ranks s r) = Ret \<Longrightarrow>
       a2a_rank_ok cfg h0 k0 (emit r (EvReturn collSuccess) (goto r (Returned collSuccess) s)) r"
    by (auto simp: a2a_rank_ok_def intro!: rank_inv_pc_only[OF ri])
qed

lemma a2a_rank_ok_own:
  assumes G: "group_ok cfg h0 (\<lambda>r. sendbuf (a2a cfg r)) (\<lambda>r. recvbuf (a2a cfg r))"
    and inv: "a2a_inv cfg h0 k0 s" and r: "r < nranks cfg"
  shows "a2a_rank_ok cfg h0 k0 (collAlltoallLocal_step cfg r s) r"
proof -
  have c: "comm_ok cfg" using G by (simp add: group_ok_def)
  have me: "a2a_rank_ok cfg h0 k0 s r" using inv r by (simp add: a2a_inv_def)
  note ri = me[unfolded a2a_rank_ok_def]
  have tr: "a2a_rank_trace cfg s r"
    using inv r by (simp add: a2a_inv_def a2a_trace_inv_def a2a_rank_trace_def)
  have u: "user_ptr h0 (recvbuf (a2a cfg r))" using G r by (simp add: group_ok_def)
  have f: "fresh h0 \<le> fresh (heap s)" using inv by (simp add: a2a_inv_def frame_inv_def)
  have g: "nat (global_rank (comm cfg r)) = r" using c r by (simp add: comm_ok_def)
  show ?thesis
  proof (cases "pc (ranks s r)")
    case Entry
    show ?thesis
      using rank_inv_entry_generic[OF ri Entry u f alltoall_entry_outcome[of cfg r s]] r Entry
      by (simp add: collAlltoallLocal_step_def a2a_rank_ok_def)
  next
    case StoreDispls
    then show ?thesis using me r by (simp add: collAlltoallLocal_step_def)
  next
    case StoreBuffer
    then show ?thesis using a2a_rank_ok_simple(1)[OF c r me] r
      by (simp add: collAlltoallLocal_step_def)
  next
    case StoreReady
    then show ?thesis using a2a_rank_ok_simple(2)[OF c r me] r
      by (simp add: collAlltoallLocal_step_def)
  next
    case FenceA
    then show ?thesis using a2a_rank_ok_simple(3)[OF c r me] r
      by (simp add: collAlltoallLocal_step_def)
  next
    case (Poll i)
    then show ?thesis using a2a_rank_ok_poll[OF c r me tr Poll] r
      by (simp add: collAlltoallLocal_step_def)
  next
    case (Copy i)
    then show ?thesis using a2a_rank_ok_copy[OF G inv r Copy] r
      by (simp add: collAlltoallLocal_step_def)
  next
    case BarrierEnter
    then show ?thesis using a2a_rank_ok_simple(4)[OF c r me] r
      by (simp add: collAlltoallLocal_step_def)
  next
    case (BarrierWait g)
    then show ?thesis using a2a_rank_ok_simple(5)[OF c r me] r
      by (simp add: collAlltoallLocal_step_def)
  next
    case FreeTmp
    then show ?thesis using rank_inv_free[OF ri FreeTmp u f, of Update] r
      by (simp add: collAlltoallLocal_step_def a2a_rank_ok_def)
  next
    case Update
    then show ?thesis using rank_inv_update[OF ri _ _ g, of FenceB] r
      by (simp add: collAlltoallLocal_step_def a2a_rank_ok_def)
  next
    case FenceB
    then show ?thesis using a2a_rank_ok_simple(6)[OF c r me] r
      by (simp add: collAlltoallLocal_step_def)
  next
    case Ret
    then show ?thesis using a2a_rank_ok_simple(7)[OF c r me] r
      by (simp add: collAlltoallLocal_step_def)
  next
    case (Returned x)
    then show ?thesis using me r by (simp add: collAlltoallLocal_step_def)
  next
    case Aborted
    then show ?thesis using me r by (simp add: collAlltoallLocal_step_def)
  next
    case Faulted
    then show ?thesis using me r by (simp add: collAlltoallLocal_step_def)
  qed
qed

lemma frame_inv_scratch:
  assumes "frame_inv h0 n rcv inpl s" "q < n"
  shows "inpl q \<and> pc (ranks s q) = FreeTmp \<longrightarrow> scratch_ptr h0 (sendbuf_tmp (ranks s q))"
  using assms by (auto simp: frame_inv_def)

lemma separate_recv:
  assumes "buffers_separate n sb rcv" "r < n" "q < n" "r \<noteq> q"
  shows "rcv r = Null \<or> blk_of (rcv r) \<noteq> blk_of (rcv q)"
  using assms unfolding buffers_separate_def by blast

lemma a2a_inv_step:
  assumes G: "group_ok cfg h0 (\<lambda>r. sendbuf (a2a cfg r)) (\<lambda>r. recvbuf (a2a cfg r))"
    and inv: "a2a_inv cfg h0 k0 s"
  shows "a2a_inv cfg h0 k0 (collAlltoallLocal_step cfg q s)"
proof (cases "q < nranks cfg")
  case False
  then show ?thesis using inv by (simp add: collAlltoallLocal_step_def)
next
  case q: True
  let ?s' = "collAlltoallLocal_step cfg q s"
  have c: "comm_ok cfg" using G by (simp add: group_ok_def)
  have fr: "frame_inv h0 (nranks cfg) (\<lambda>r. recvbuf (a2a cfg r)) (a2a_inplace cfg) s"
    using inv by (simp add: a2a_inv_def)
  have hs: "heap_step h0 (recvbuf (a2a cfg q)) (heap s) (heap ?s')"
    by (rule heap_step_alltoall[OF frame_inv_scratch[OF fr q]])
  have ho: "heap_ok (heap ?s')" using hs inv by (simp add: heap_step_def a2a_inv_def)
  have f: "fresh h0 \<le> fresh (heap s)" using fr by (simp add: frame_inv_def)
  have sep: "buffers_separate (nranks cfg) (\<lambda>r. sendbuf (a2a cfg r)) (\<lambda>r. recvbuf (a2a cfg r))"
    using G by (simp add: group_ok_def)
  have rk: "a2a_rank_ok cfg h0 k0 ?s' r" if r: "r < nranks cfg" for r
  proof (cases "r = q")
    case True
    then show ?thesis using a2a_rank_ok_own[OF G inv q] by simp
  next
    case False
    have me: "a2a_rank_ok cfg h0 k0 s r" using inv r by (simp add: a2a_inv_def)
    have o: "ranks ?s' r = ranks s r"
      using alltoall_step_others[of q s cfg] False by (simp add: others_same_def)
    have sl: "buffers (local_buffer ?s' k0) r = buffers (local_buffer s k0) r"
      "displs (local_buffer ?s' k0) r = displs (local_buffer s k0) r"
      using slot_others_alltoall[OF c, of q s] False by (simp_all add: slot_others_def)
    have uq: "user_ptr h0 (recvbuf (a2a cfg q))" and ur: "user_ptr h0 (recvbuf (a2a cfg r))"
      using G q r by (simp_all add: group_ok_def)
    show ?thesis unfolding a2a_rank_ok_def
      by (rule rank_inv_other[OF me[unfolded a2a_rank_ok_def] o sl hs uq ur f
            separate_recv[OF sep r q False]])
  qed
  show ?thesis unfolding a2a_inv_def
    using ho frame_inv_alltoall_step[OF fr] a2a_trace_inv_step[OF c] inv rk
    by (simp add: a2a_inv_def)
qed

lemma rank_inv_start:
  "rank_inv h0 k0 n sb rcv tab wr full (start_state h0 k0) r"
  by (simp add: rank_inv_def start_state_def empty_slot_def recv_ok_def split: ptr.splits)

lemma a2a_inv_start:
  assumes "heap_ok h0"
  shows "a2a_inv cfg h0 k0 (start_state h0 k0)"
  using assms frame_inv_start a2a_trace_inv_start rank_inv_start
  by (simp add: a2a_inv_def a2a_rank_ok_def) (simp add: start_state_def)

lemma a2a_inv_run_from:
  assumes G: "group_ok cfg h0 (\<lambda>r. sendbuf (a2a cfg r)) (\<lambda>r. recvbuf (a2a cfg r))"
    and inv: "a2a_inv cfg h0 k0 s"
  shows "a2a_inv cfg h0 k0 (run (collAlltoallLocal_step cfg) sched s)"
  using inv by (induction sched arbitrary: s) (simp_all add: a2a_inv_step[OF G])

lemma a2a_inv_run:
  assumes G: "group_ok cfg h0 (\<lambda>r. sendbuf (a2a cfg r)) (\<lambda>r. recvbuf (a2a cfg r))"
  shows "a2a_inv cfg h0 k0 (run (collAlltoallLocal_step cfg) sched (start_state h0 k0))"
  using a2a_inv_run_from[OF G a2a_inv_start] G by (simp add: group_ok_def)

lemma ring_peer_onto:
  assumes "r < n" "p < n"
  shows "\<exists>j. 1 \<le> j \<and> j \<le> n \<and> ring_peer n r j = p"
proof -
  consider "p = r" | "p < r" | "r < p" by linarith
  then show ?thesis
  proof cases
    case 1
    then show ?thesis using assms by (intro exI[of _ n]) (simp add: ring_peer_def)
  next
    case 2
    then have "ring_peer n r (r - p) = p" using assms by (simp add: ring_peer_def)
    moreover have "1 \<le> r - p \<and> r - p \<le> n" using 2 assms by linarith
    ultimately show ?thesis by blast
  next
    case 3
    then have "ring_peer n r (r + n - p) = p" using assms by (simp add: ring_peer_def)
    moreover have "1 \<le> r + n - p \<and> r + n - p \<le> n" using 3 assms by linarith
    ultimately show ?thesis by blast
  qed
qed

lemma ring_peer_inj:
  assumes "r < n" "1 \<le> i" "i < j" "j \<le> n"
  shows "ring_peer n r i \<noteq> ring_peer n r j"
proof
  assume e: "ring_peer n r i = ring_peer n r j"
  have "(r + n - i) mod n = (r + n - j) mod n" using e by (simp add: ring_peer_def)
  moreover have "r + n - j \<le> r + n - i" using assms by simp
  ultimately have "n dvd (r + n - i) - (r + n - j)" by (metis mod_eq_dvd_iff_nat)
  moreover have "(r + n - i) - (r + n - j) = j - i" using assms by simp
  ultimately have "n dvd j - i" by simp
  moreover have "0 < j - i" "j - i < n" using assms by simp_all
  ultimately show False by (simp add: nat_dvd_not_less)
qed

lemma ring_peer_less: "0 < n \<Longrightarrow> ring_peer n r j < n"
  by (simp add: ring_peer_def)

lemma recv_image_segment:
  assumes bounds: "\<forall>j. 1 \<le> j \<and> j \<le> m \<longrightarrow>
             fst (wr (ring_peer n r j)) + length (snd (wr (ring_peer n r j))) \<le> length d0"
    and disj: "\<forall>i j. 1 \<le> i \<and> i < j \<and> j \<le> m \<longrightarrow>
             fst (wr (ring_peer n r i)) + length (snd (wr (ring_peer n r i)))
                \<le> fst (wr (ring_peer n r j))
             \<or> fst (wr (ring_peer n r j)) + length (snd (wr (ring_peer n r j)))
                \<le> fst (wr (ring_peer n r i))"
    and j: "1 \<le> j" "j \<le> m"
  shows "segment (recv_image d0 wr n r m) (fst (wr (ring_peer n r j)))
           (length (snd (wr (ring_peer n r j)))) = snd (wr (ring_peer n r j))"
  using bounds disj j
proof (induction m)
  case 0
  then show ?case by simp
next
  case (Suc m)
  have len: "length (recv_image d0 wr n r m) = length d0"
    using length_recv_image[of m wr n r d0] Suc.prems(1) by simp
  have b: "fst (wr (ring_peer n r (Suc m))) + length (snd (wr (ring_peer n r (Suc m))))
             \<le> length (recv_image d0 wr n r m)"
    using Suc.prems(1) len by simp
  show ?case
  proof (cases "j = Suc m")
    case True
    then show ?thesis using segment_overwrite_same[OF b] by (simp add: recv_image_Suc)
  next
    case False
    then have jm: "j \<le> m" using Suc.prems(4) by simp
    have d: "fst (wr (ring_peer n r j)) + length (snd (wr (ring_peer n r j)))
                \<le> fst (wr (ring_peer n r (Suc m)))
             \<or> fst (wr (ring_peer n r (Suc m))) + length (snd (wr (ring_peer n r (Suc m))))
                \<le> fst (wr (ring_peer n r j))"
      using Suc.prems(2) Suc.prems(3) jm by (meson le_imp_less_Suc order_refl)
    have ih: "segment (recv_image d0 wr n r m) (fst (wr (ring_peer n r j)))
           (length (snd (wr (ring_peer n r j)))) = snd (wr (ring_peer n r j))"
      using Suc.IH Suc.prems jm by simp
    show ?thesis
      using segment_overwrite_other[OF b d] ih by (simp add: recv_image_Suc)
  qed
qed

lemma alltoall_violated_step:
  assumes "a2a_violated cfg r" "pc (ranks s r) = Entry \<or> pc (ranks s r) = Aborted"
  shows "pc (ranks (collAlltoallLocal_step cfg q s) r) = Entry
         \<or> pc (ranks (collAlltoallLocal_step cfg q s) r) = Aborted"
proof (cases "q = r")
  case False
  then show ?thesis using alltoall_step_others[of q s cfg] assms(2) by (simp add: others_same_def)
next
  case True
  then show ?thesis using assms pc_entry(1)[OF assms(1)]
    by (auto simp: collAlltoallLocal_step_def)
qed

lemma alltoall_violated_run:
  assumes "a2a_violated cfg r" "pc (ranks s r) = Entry \<or> pc (ranks s r) = Aborted"
  shows "pc (ranks (run (collAlltoallLocal_step cfg) sched s) r) = Entry
         \<or> pc (ranks (run (collAlltoallLocal_step cfg) sched s) r) = Aborted"
  using assms(2)
  by (induction sched arbitrary: s) (simp_all add: alltoall_violated_step[OF assms(1)])

lemma alltoall_returned_checked:
  assumes "pc (ranks (run (collAlltoallLocal_step cfg) sched (start_state h0 k0)) r) = Returned x"
  shows "\<not> a2a_violated cfg r"
  using alltoall_violated_run[of cfg r "start_state h0 k0" sched] assms
  by (auto simp: start_state_def)

lemma to_size_t_le: "0 \<le> x \<Longrightarrow> to_size_t x \<le> nat x"
  by (simp add: to_size_t_def nat_mono zmod_le_nonneg_dividend)

lemma recv_ok_block:
  assumes "recv_ok h0 h rcv wr full n r m" "0 < m"
  shows "block_of h rcv = recv_image (block_of h0 rcv) wr n r m"
  using assms by (cases rcv) (simp_all add: recv_ok_def block_of_def)

lemma a2a_writes_disjoint:
  assumes sz: "0 \<le> sendcount (a2a cfg r)" "0 \<le> dtype_size cfg (sendtype (a2a cfg r))"
    and nv: "\<not> a2a_violated cfg r"
    and fp: "a2a_full cfg h0 r p" and fq: "a2a_full cfg h0 r q" and pq: "p < q"
  shows "fst (a2a_write cfg h0 r p) + length (snd (a2a_write cfg h0 r p))
           \<le> fst (a2a_write cfg h0 r q)"
proof -
  let ?x = "sendcount (a2a cfg r) * dtype_size cfg (sendtype (a2a cfg r))"
  let ?o = "off_of (recvbuf (a2a cfg r))"
  have x: "0 \<le> ?x" using sz by simp
  have e: "dtype_size cfg (recvtype (a2a cfg r)) * recvcount (a2a cfg r) = ?x"
    using nv by (simp add: a2a_violated_def mult.commute)
  have dp: "a2a_dst_off cfg r p = ?o + int p * ?x" "a2a_dst_off cfg r q = ?o + int q * ?x"
    using e by (simp_all add: a2a_dst_off_def mult.assoc)
  have l: "length (snd (a2a_write cfg h0 r p)) \<le> nat ?x"
    using fp to_size_t_le[OF x] by (simp add: a2a_full_def a2a_write_def a2a_len_def)
  have "int p + 1 \<le> int q" using pq by simp
  then have "(int p + 1) * ?x \<le> int q * ?x" using x by (rule mult_right_mono)
  then have m: "int p * ?x + ?x \<le> int q * ?x" by (simp add: algebra_simps)
  have "0 \<le> ?o + int p * ?x" using fp dp by (simp add: a2a_full_def)
  then have "nat (?o + int p * ?x) + nat ?x \<le> nat (?o + int q * ?x)" using m x by linarith
  then show ?thesis using l dp by (simp add: a2a_write_def)
qed

lemma a2a_returned_segment:
  assumes G: "group_ok cfg h0 (\<lambda>r. sendbuf (a2a cfg r)) (\<lambda>r. recvbuf (a2a cfg r))"
    and sz: "a2a_sizes_ok cfg"
    and r: "r < nranks cfg" and p: "p < nranks cfg"
    and ret: "pc (ranks (run (collAlltoallLocal_step cfg) sched (start_state h0 k0)) r)
                = Returned x"
  shows "a2a_result cfg (run (collAlltoallLocal_step cfg) sched (start_state h0 k0)) r p
           = a2a_sent cfg h0 p r"
    and "length (a2a_sent cfg h0 p r) = a2a_len cfg r"
proof -
  let ?t = "run (collAlltoallLocal_step cfg) sched (start_state h0 k0)"
  let ?n = "nranks cfg"
  let ?wr = "a2a_write cfg h0 r"
  let ?rcv = "recvbuf (a2a cfg r)"
  have inv: "a2a_inv cfg h0 k0 ?t" by (rule a2a_inv_run[OF G])
  have ro: "recv_ok h0 (heap ?t) ?rcv ?wr (a2a_full cfg h0 r) ?n r ?n"
    using inv r ret by (simp add: a2a_inv_def a2a_rank_ok_def rank_inv_def)
  have blk: "block_of (heap ?t) ?rcv = recv_image (block_of h0 ?rcv) ?wr ?n r ?n"
    using recv_ok_block[OF ro] r by simp
  have full: "a2a_full cfg h0 r (ring_peer ?n r j)" if "1 \<le> j" "j \<le> ?n" for j
    using ro that by (simp add: recv_ok_def)
  have bounds: "\<forall>j. 1 \<le> j \<and> j \<le> ?n \<longrightarrow>
      fst (?wr (ring_peer ?n r j)) + length (snd (?wr (ring_peer ?n r j)))
        \<le> length (block_of h0 ?rcv)"
    using ro by (simp add: recv_ok_def)
  have nv: "\<not> a2a_violated cfg r" using alltoall_returned_checked[OF ret] .
  have s0: "0 \<le> sendcount (a2a cfg r)" "0 \<le> dtype_size cfg (sendtype (a2a cfg r))"
    using sz r by (simp_all add: a2a_sizes_ok_def)
  have disj: "\<forall>i j. 1 \<le> i \<and> i < j \<and> j \<le> ?n \<longrightarrow>
             fst (?wr (ring_peer ?n r i)) + length (snd (?wr (ring_peer ?n r i)))
                \<le> fst (?wr (ring_peer ?n r j))
             \<or> fst (?wr (ring_peer ?n r j)) + length (snd (?wr (ring_peer ?n r j)))
                \<le> fst (?wr (ring_peer ?n r i))"
  proof (intro allI impI)
    fix i j assume ij: "1 \<le> i \<and> i < j \<and> j \<le> ?n"
    have fi: "a2a_full cfg h0 r (ring_peer ?n r i)" and fj: "a2a_full cfg h0 r (ring_peer ?n r j)"
      using full ij by simp_all
    have ne: "ring_peer ?n r i \<noteq> ring_peer ?n r j" using ring_peer_inj[OF r] ij by simp
    then consider "ring_peer ?n r i < ring_peer ?n r j" | "ring_peer ?n r j < ring_peer ?n r i"
      by linarith
    then show "fst (?wr (ring_peer ?n r i)) + length (snd (?wr (ring_peer ?n r i)))
                \<le> fst (?wr (ring_peer ?n r j))
             \<or> fst (?wr (ring_peer ?n r j)) + length (snd (?wr (ring_peer ?n r j)))
                \<le> fst (?wr (ring_peer ?n r i))"
      using a2a_writes_disjoint[OF s0 nv fi fj] a2a_writes_disjoint[OF s0 nv fj fi]
      by cases blast+
  qed
  obtain j where j: "1 \<le> j" "j \<le> ?n" "ring_peer ?n r j = p"
    using ring_peer_onto[OF r p] by blast
  have fl: "a2a_full cfg h0 r p" using full[OF j(1,2)] j(3) by simp
  show len: "length (a2a_sent cfg h0 p r) = a2a_len cfg r" using fl by (simp add: a2a_full_def)
  have "segment (recv_image (block_of h0 ?rcv) ?wr ?n r ?n) (fst (?wr (ring_peer ?n r j)))
           (length (snd (?wr (ring_peer ?n r j)))) = snd (?wr (ring_peer ?n r j))"
    by (rule recv_image_segment[OF bounds disj j(1,2)])
  then show "a2a_result cfg ?t r p = a2a_sent cfg h0 p r"
    using blk j(3) len by (simp add: a2a_result_def a2a_write_def)
qed

lemma a2av_copy_bounds:
  assumes "a2av_rank_trace cfg s r" "pc (ranks s r) = Copy i"
  shows "1 \<le> i \<and> i \<le> int (nranks cfg)"
  using assms by (auto simp: a2av_rank_trace_def a2av_trace_ok_def split: if_splits)

lemma a2av_poll_bounds:
  assumes "a2av_rank_trace cfg s r" "pc (ranks s r) = Poll i"
  shows "1 \<le> i \<and> i \<le> int (nranks cfg) + 1"
  using assms by (auto simp: a2av_rank_trace_def a2av_trace_ok_def split: if_splits)

lemma rank_inv_table:
  assumes "rank_inv h0 k0 n sb rcv tab wr full s p" "displs (local_buffer s k0) p \<noteq> None"
  shows "displs (local_buffer s k0) p = tab"
  using assms by (auto simp: rank_inv_def)

lemma a2av_rank_ok_copy:
  assumes G: "group_ok cfg h0 (\<lambda>r. v_sendbuf (a2av cfg r)) (\<lambda>r. v_recvbuf (a2av cfg r))"
    and inv: "a2av_inv cfg h0 k0 s" and r: "r < nranks cfg" and pc: "pc (ranks s r) = Copy i"
  shows "a2av_rank_ok cfg h0 k0 (alltoallv_copy cfg r i s) r"
proof -
  have c: "comm_ok cfg" using G by (simp add: group_ok_def)
  have me: "a2av_rank_ok cfg h0 k0 s r" using inv r by (simp add: a2av_inv_def)
  have tr: "a2av_rank_trace cfg s r"
    using inv r by (simp add: a2av_inv_def a2av_trace_inv_def a2av_rank_trace_def)
  have ib: "1 \<le> i" "i \<le> int (nranks cfg)" using a2av_copy_bounds[OF tr pc] by auto
  have u: "user_ptr h0 (v_recvbuf (a2av cfg r))" using G r by (simp add: group_ok_def)
  have fr: "frame_inv h0 (nranks cfg) (\<lambda>r. v_recvbuf (a2av cfg r)) (a2av_inplace cfg) s"
    using inv by (simp add: a2av_inv_def)
  have k: "slot_ptr (ranks s r) = k0" using me pc by (simp add: a2av_rank_ok_def rank_inv_def)
  show ?thesis
  proof (cases "alltoallv_plan cfg r i (displs (local_buffer s k0))")
    case None
    then show ?thesis using k rank_inv_fault_same[OF me[unfolded a2av_rank_ok_def]]
      by (simp add: alltoallv_copy_def a2av_rank_ok_def cur_slot_def)
  next
    case (Some pl)
    obtain peer soff doff len where pl: "pl = (peer, soff, doff, len)" by (cases pl) auto
    note pd = alltoallv_plan_SomeD[OF c r ib Some[unfolded pl]]
    let ?pub = "buffers (local_buffer s k0) peer"
    show ?thesis
    proof (cases "memcpy (heap s) (ptr_add (v_recvbuf (a2av cfg r)) doff) (ptr_add ?pub soff) len")
      case None
      then show ?thesis using Some pl k rank_inv_fault_same[OF me[unfolded a2av_rank_ok_def]]
        by (simp add: alltoallv_copy_def a2av_rank_ok_def cur_slot_def)
    next
      case mc: (Some h)
      have hs: "heap_step h0 (v_recvbuf (a2av cfg r)) (heap s) h"
        by (rule heap_step_memcpy_rcv[OF mc]) simp
      have pn: "?pub \<noteq> Null" using mc by (cases ?pub) auto
      have pk: "a2av_rank_ok cfg h0 k0 s peer" using inv pd(2) by (simp add: a2av_inv_def)
      have pt: "tmp_ok h0 (heap s) (v_sendbuf (a2av cfg peer)) (v_recvbuf (a2av cfg peer)) ?pub"
        using rank_inv_published[OF pk[unfolded a2av_rank_ok_def] pn] .
      have tb: "displs (local_buffer s k0) peer = v_sdispls (a2av cfg peer)"
        using rank_inv_table[OF pk[unfolded a2av_rank_ok_def] pd(7)] .
      have sep: "buffers_separate (nranks cfg) (\<lambda>r. v_sendbuf (a2av cfg r))
                   (\<lambda>r. v_recvbuf (a2av cfg r))"
        using G by (simp add: group_ok_def)
      have us: "user_ptr h0 (v_sendbuf (a2av cfg peer))" using G pd(2) by (simp add: group_ok_def)
      have kept: "v_sendbuf (a2av cfg peer) \<noteq> v_recvbuf (a2av cfg peer) \<Longrightarrow>
          block_of (heap s) (v_sendbuf (a2av cfg peer)) = block_of h0 (v_sendbuf (a2av cfg peer))"
        using send_block_kept[OF fr sep pd(2)] us by simp
      have r0: "recv_ok h0 (heap s) (v_recvbuf (a2av cfg r)) (a2av_write cfg h0 r)
                  (a2av_full cfg h0 r) (nranks cfg) r (nat (i - 1))"
        using me pc by (simp add: a2av_rank_ok_def rank_inv_def)
      have si: "Suc (nat (i - 1)) = nat i" using ib by simp
      have ro: "recv_ok h0 h (v_recvbuf (a2av cfg r)) (a2av_write cfg h0 r) (a2av_full cfg h0 r)
                  (nranks cfg) r (Suc (nat (i - 1)))"
      proof (rule copy_recv_ok[OF r0 mc pt kept, where p = peer])
        show "fst (a2av_write cfg h0 r peer) = nat (off_of (v_recvbuf (a2av cfg r)) + doff)"
          using pd(4) by (simp add: a2av_write_def a2av_dst_off_def)
        show "snd (a2av_write cfg h0 r peer)
                = segment (block_of h0 (v_sendbuf (a2av cfg peer)))
                    (nat (off_of (v_sendbuf (a2av cfg peer)) + soff)) len"
          using pd(3,5) tb by (simp add: a2av_write_def a2av_sent_def a2av_src_off_def)
        show "a2av_full cfg h0 r peer"
          if "0 \<le> off_of (v_recvbuf (a2av cfg r)) + doff
               \<and> 0 \<le> off_of (v_sendbuf (a2av cfg peer)) + soff
               \<and> length (snd (a2av_write cfg h0 r peer)) = len"
          using that pd(3,4,5) tb
          by (simp add: a2av_full_def a2av_write_def a2av_dst_off_def a2av_src_off_def)
        show "peer = ring_peer (nranks cfg) r (Suc (nat (i - 1)))" using pd(1) si by simp
      qed
      show ?thesis
      proof (cases "int_add i 1")
        case None
        then show ?thesis
          using Some pl mc k rank_inv_fault[OF me[unfolded a2av_rank_ok_def] hs u]
          by (simp add: alltoallv_copy_def a2av_rank_ok_def cur_slot_def)
      next
        case (Some i')
        then have i': "i' = i + 1" by (simp add: int_add_def split: if_splits)
        show ?thesis
          using \<open>alltoallv_plan cfg r i (displs (local_buffer s k0)) = Some pl\<close> pl mc k Some i'
            rank_inv_copied[OF me[unfolded a2av_rank_ok_def] pc ib(1) hs u ro[unfolded si]]
          by (simp add: alltoallv_copy_def a2av_rank_ok_def cur_slot_def)
      qed
    qed
  qed
qed

lemma a2av_rank_ok_poll:
  assumes c: "comm_ok cfg" and r: "r < nranks cfg"
    and me: "a2av_rank_ok cfg h0 k0 s r" and tr: "a2av_rank_trace cfg s r"
    and pc: "pc (ranks s r) = Poll i"
  shows "a2av_rank_ok cfg h0 k0 (alltoallv_poll cfg r i s) r"
proof -
  have ib: "1 \<le> i" "i \<le> int (nranks cfg) + 1" using a2av_poll_bounds[OF tr pc] by auto
  have n: "global_comm_size (comm cfg r) = int (nranks cfg)" using c r by (simp add: comm_ok_def)
  show ?thesis
  proof (cases "int_add (global_comm_size (comm cfg r)) 1")
    case None
    then show ?thesis using rank_inv_fault_same[OF me[unfolded a2av_rank_ok_def]]
      by (simp add: alltoallv_poll_def a2av_rank_ok_def)
  next
    case (Some bound)
    then have b: "bound = int (nranks cfg) + 1" using n by (simp add: int_add_def split: if_splits)
    show ?thesis
    proof (cases "i < bound")
      case False
      then have "nat (i - 1) = nranks cfg" using ib b by simp
      then show ?thesis using Some False pc
        by (auto simp: alltoallv_poll_def a2av_rank_ok_def
              intro!: rank_inv_pc_only[OF me[unfolded a2av_rank_ok_def]])
    next
      case True
      show ?thesis
      proof (cases "recvfrom_global_rank (comm cfg r) i")
        case None
        then show ?thesis using Some True rank_inv_fault_same[OF me[unfolded a2av_rank_ok_def]]
          by (simp add: alltoallv_poll_def a2av_rank_ok_def)
      next
        case pr: (Some peer)
        show ?thesis using Some True pr pc
          by (auto simp: alltoallv_poll_def a2av_rank_ok_def
                intro!: rank_inv_pc_only[OF me[unfolded a2av_rank_ok_def]])
      qed
    qed
  qed
qed

lemma rank_inv_store_displs:
  assumes inv: "rank_inv h0 k0 n sb rcv tab wr full s r"
    and pc: "pc (ranks s r) = StoreDispls"
  shows "rank_inv h0 k0 n sb rcv tab wr full
           (emit r e (goto r StoreBuffer
              (set_slot (slot_ptr (ranks s r)) (\<lambda>b. b\<lparr>displs := (displs b)(r := tab)\<rparr>) s))) r"
  using inv pc by (auto simp: rank_inv_def)

lemma rank_inv_store_buffer_v:
  assumes inv: "rank_inv h0 k0 n sb rcv tab wr full s r"
    and pc: "pc (ranks s r) = StoreBuffer"
  shows "rank_inv h0 k0 n sb rcv tab wr full
           (emit r e (goto r FenceA
              (set_slot (slot_ptr (ranks s r))
                 (\<lambda>b. b\<lparr>buffers := (buffers b)(r := sendbuf_tmp (ranks s r))\<rparr>) s))) r"
  using inv pc by (auto simp: rank_inv_def)

lemma a2av_rank_ok_simple:
  assumes c: "comm_ok cfg" and r: "r < nranks cfg"
    and me: "a2av_rank_ok cfg h0 k0 s r"
  shows "pc (ranks s r) = StoreDispls \<Longrightarrow> a2av_rank_ok cfg h0 k0 (alltoallv_store_displs cfg r s) r"
    "pc (ranks s r) = StoreBuffer \<Longrightarrow> a2av_rank_ok cfg h0 k0 (alltoallv_store_buffer cfg r s) r"
    "pc (ranks s r) = FenceA \<Longrightarrow> a2av_rank_ok cfg h0 k0 (emit r EvFence (goto r (Poll 1) s)) r"
    "pc (ranks s r) = BarrierEnter \<Longrightarrow> a2av_rank_ok cfg h0 k0 (collBarrierLocal_arrive cfg r s) r"
    "pc (ranks s r) = BarrierWait g \<Longrightarrow> a2av_rank_ok cfg h0 k0 (collBarrierLocal_wait r g FreeTmp s) r"
    "pc (ranks s r) = FenceB \<Longrightarrow> a2av_rank_ok cfg h0 k0 (emit r EvFence (goto r Update s)) r"
    "pc (ranks s r) = Ret \<Longrightarrow>
       a2av_rank_ok cfg h0 k0 (emit r (EvReturn collSuccess) (goto r (Returned collSuccess) s)) r"
proof -
  note ri = me[unfolded a2av_rank_ok_def]
  show "pc (ranks s r) = StoreDispls \<Longrightarrow> a2av_rank_ok cfg h0 k0 (alltoallv_store_displs cfg r s) r"
    using rank_inv_store_displs[OF ri] index_of_rank[OF c r]
    by (simp add: alltoallv_store_displs_def a2av_rank_ok_def)
  show "pc (ranks s r) = StoreBuffer \<Longrightarrow> a2av_rank_ok cfg h0 k0 (alltoallv_store_buffer cfg r s) r"
    using rank_inv_store_buffer_v[OF ri] index_of_rank[OF c r]
    by (simp add: alltoallv_store_buffer_def a2av_rank_ok_def)
  show "pc (ranks s r) = FenceA \<Longrightarrow> a2av_rank_ok cfg h0 k0 (emit r EvFence (goto r (Poll 1) s)) r"
    by (auto simp: a2av_rank_ok_def intro!: rank_inv_pc_only[OF ri])
  show "pc (ranks s r) = BarrierEnter \<Longrightarrow> a2av_rank_ok cfg h0 k0 (collBarrierLocal_arrive cfg r s) r"
    by (auto simp: a2av_rank_ok_def intro!: rank_inv_pc_only[OF ri])
  show "pc (ranks s r) = BarrierWait g \<Longrightarrow> a2av_rank_ok cfg h0 k0 (collBarrierLocal_wait r g FreeTmp s) r"
    by (auto simp: a2av_rank_ok_def collBarrierLocal_wait_def intro!: rank_inv_pc_only[OF ri])
  show "pc (ranks s r) = FenceB \<Longrightarrow> a2av_rank_ok cfg h0 k0 (emit r EvFence (goto r Update s)) r"
    by (auto simp: a2av_rank_ok_def intro!: rank_inv_pc_only[OF ri])
  show "pc (ranks s r) = Ret \<Longrightarrow>
       a2av_rank_ok cfg h0 k0 (emit r (EvReturn collSuccess) (goto r (Returned collSuccess) s)) r"
    by (auto simp: a2av_rank_ok_def intro!: rank_inv_pc_only[OF ri])
qed

lemma a2av_rank_ok_own:
  assumes G: "group_ok cfg h0 (\<lambda>r. v_sendbuf (a2av cfg r)) (\<lambda>r. v_recvbuf (a2av cfg r))"
    and inv: "a2av_inv cfg h0 k0 s" and r: "r < nranks cfg"
  shows "a2av_rank_ok cfg h0 k0 (collAlltoallvLocal_step cfg r s) r"
proof -
  have c: "comm_ok cfg" using G by (simp add: group_ok_def)
  have me: "a2av_rank_ok cfg h0 k0 s r" using inv r by (simp add: a2av_inv_def)
  note ri = me[unfolded a2av_rank_ok_def]
  have tr: "a2av_rank_trace cfg s r"
    using inv r by (simp add: a2av_inv_def a2av_trace_inv_def a2av_rank_trace_def)
  have u: "user_ptr h0 (v_recvbuf (a2av cfg r))" using G r by (simp add: group_ok_def)
  have f: "fresh h0 \<le> fresh (heap s)" using inv by (simp add: a2av_inv_def frame_inv_def)
  have g: "nat (global_rank (comm cfg r)) = r" using c r by (simp add: comm_ok_def)
  show ?thesis
  proof (cases "pc (ranks s r)")
    case Entry
    show ?thesis
      using rank_inv_entry_generic[OF ri Entry u f alltoallv_entry_outcome[of cfg r s]] r Entry
      by (simp add: collAlltoallvLocal_step_def a2av_rank_ok_def)
  next
    case StoreDispls
    then show ?thesis using a2av_rank_ok_simple(1)[OF c r me] r
      by (simp add: collAlltoallvLocal_step_def)
  next
    case StoreBuffer
    then show ?thesis using a2av_rank_ok_simple(2)[OF c r me] r
      by (simp add: collAlltoallvLocal_step_def)
  next
    case StoreReady
    then show ?thesis using me r by (simp add: collAlltoallvLocal_step_def)
  next
    case FenceA
    then show ?thesis using a2av_rank_ok_simple(3)[OF c r me] r
      by (simp add: collAlltoallvLocal_step_def)
  next
    case (Poll i)
    then show ?thesis using a2av_rank_ok_poll[OF c r me tr Poll] r
      by (simp add: collAlltoallvLocal_step_def)
  next
    case (Copy i)
    then show ?thesis using a2av_rank_ok_copy[OF G inv r Copy] r
      by (simp add: collAlltoallvLocal_step_def)
  next
    case BarrierEnter
    then show ?thesis using a2av_rank_ok_simple(4)[OF c r me] r
      by (simp add: collAlltoallvLocal_step_def)
  next
    case (BarrierWait g)
    then show ?thesis using a2av_rank_ok_simple(5)[OF c r me] r
      by (simp add: collAlltoallvLocal_step_def)
  next
    case FreeTmp
    then show ?thesis using rank_inv_free[OF ri FreeTmp u f, of FenceB] r
      by (simp add: collAlltoallvLocal_step_def a2av_rank_ok_def)
  next
    case Update
    then show ?thesis using rank_inv_update[OF ri _ _ g, of Ret] r
      by (simp add: collAlltoallvLocal_step_def a2av_rank_ok_def)
  next
    case FenceB
    then show ?thesis using a2av_rank_ok_simple(6)[OF c r me] r
      by (simp add: collAlltoallvLocal_step_def)
  next
    case Ret
    then show ?thesis using a2av_rank_ok_simple(7)[OF c r me] r
      by (simp add: collAlltoallvLocal_step_def)
  next
    case (Returned x)
    then show ?thesis using me r by (simp add: collAlltoallvLocal_step_def)
  next
    case Aborted
    then show ?thesis using me r by (simp add: collAlltoallvLocal_step_def)
  next
    case Faulted
    then show ?thesis using me r by (simp add: collAlltoallvLocal_step_def)
  qed
qed

lemma a2av_inv_step:
  assumes G: "group_ok cfg h0 (\<lambda>r. v_sendbuf (a2av cfg r)) (\<lambda>r. v_recvbuf (a2av cfg r))"
    and inv: "a2av_inv cfg h0 k0 s"
  shows "a2av_inv cfg h0 k0 (collAlltoallvLocal_step cfg q s)"
proof (cases "q < nranks cfg")
  case False
  then show ?thesis using inv by (simp add: collAlltoallvLocal_step_def)
next
  case q: True
  let ?s' = "collAlltoallvLocal_step cfg q s"
  have c: "comm_ok cfg" using G by (simp add: group_ok_def)
  have fr: "frame_inv h0 (nranks cfg) (\<lambda>r. v_recvbuf (a2av cfg r)) (a2av_inplace cfg) s"
    using inv by (simp add: a2av_inv_def)
  have hs: "heap_step h0 (v_recvbuf (a2av cfg q)) (heap s) (heap ?s')"
    by (rule heap_step_alltoallv[OF frame_inv_scratch[OF fr q]])
  have ho: "heap_ok (heap ?s')" using hs inv by (simp add: heap_step_def a2av_inv_def)
  have f: "fresh h0 \<le> fresh (heap s)" using fr by (simp add: frame_inv_def)
  have sep: "buffers_separate (nranks cfg) (\<lambda>r. v_sendbuf (a2av cfg r)) (\<lambda>r. v_recvbuf (a2av cfg r))"
    using G by (simp add: group_ok_def)
  have rk: "a2av_rank_ok cfg h0 k0 ?s' r" if r: "r < nranks cfg" for r
  proof (cases "r = q")
    case True
    then show ?thesis using a2av_rank_ok_own[OF G inv q] by simp
  next
    case False
    have me: "a2av_rank_ok cfg h0 k0 s r" using inv r by (simp add: a2av_inv_def)
    have o: "ranks ?s' r = ranks s r"
      using alltoallv_step_others[of q s cfg] False by (simp add: others_same_def)
    have sl: "buffers (local_buffer ?s' k0) r = buffers (local_buffer s k0) r"
      "displs (local_buffer ?s' k0) r = displs (local_buffer s k0) r"
      using slot_others_alltoallv[OF c, of q s] False by (simp_all add: slot_others_def)
    have uq: "user_ptr h0 (v_recvbuf (a2av cfg q))" and ur: "user_ptr h0 (v_recvbuf (a2av cfg r))"
      using G q r by (simp_all add: group_ok_def)
    show ?thesis unfolding a2av_rank_ok_def
      by (rule rank_inv_other[OF me[unfolded a2av_rank_ok_def] o sl hs uq ur f
            separate_recv[OF sep r q False]])
  qed
  show ?thesis unfolding a2av_inv_def
    using ho frame_inv_alltoallv_step[OF fr] a2av_trace_inv_step[OF c] inv rk
    by (simp add: a2av_inv_def)
qed

lemma a2av_inv_start:
  assumes "heap_ok h0"
  shows "a2av_inv cfg h0 k0 (start_state h0 k0)"
  using assms frame_inv_start a2av_trace_inv_start rank_inv_start
  by (simp add: a2av_inv_def a2av_rank_ok_def) (simp add: start_state_def)

lemma a2av_inv_run_from:
  assumes G: "group_ok cfg h0 (\<lambda>r. v_sendbuf (a2av cfg r)) (\<lambda>r. v_recvbuf (a2av cfg r))"
    and inv: "a2av_inv cfg h0 k0 s"
  shows "a2av_inv cfg h0 k0 (run (collAlltoallvLocal_step cfg) sched s)"
  using inv by (induction sched arbitrary: s) (simp_all add: a2av_inv_step[OF G])

lemma a2av_inv_run:
  assumes G: "group_ok cfg h0 (\<lambda>r. v_sendbuf (a2av cfg r)) (\<lambda>r. v_recvbuf (a2av cfg r))"
  shows "a2av_inv cfg h0 k0 (run (collAlltoallvLocal_step cfg) sched (start_state h0 k0))"
  using a2av_inv_run_from[OF G a2av_inv_start] G by (simp add: group_ok_def)

lemma a2av_returned_segment:
  assumes G: "group_ok cfg h0 (\<lambda>r. v_sendbuf (a2av cfg r)) (\<lambda>r. v_recvbuf (a2av cfg r))"
    and dj: "a2av_recv_disjoint cfg r"
    and r: "r < nranks cfg" and p: "p < nranks cfg"
    and ret: "pc (ranks (run (collAlltoallvLocal_step cfg) sched (start_state h0 k0)) r)
                = Returned x"
  shows "a2av_result cfg (run (collAlltoallvLocal_step cfg) sched (start_state h0 k0)) r p
           = a2av_sent cfg h0 p r"
    and "length (a2av_sent cfg h0 p r) = a2av_len cfg r p"
proof -
  let ?t = "run (collAlltoallvLocal_step cfg) sched (start_state h0 k0)"
  let ?n = "nranks cfg"
  let ?wr = "a2av_write cfg h0 r"
  let ?rcv = "v_recvbuf (a2av cfg r)"
  have inv: "a2av_inv cfg h0 k0 ?t" by (rule a2av_inv_run[OF G])
  have ro: "recv_ok h0 (heap ?t) ?rcv ?wr (a2av_full cfg h0 r) ?n r ?n"
    using inv r ret by (simp add: a2av_inv_def a2av_rank_ok_def rank_inv_def)
  have blk: "block_of (heap ?t) ?rcv = recv_image (block_of h0 ?rcv) ?wr ?n r ?n"
    using recv_ok_block[OF ro] r by simp
  have full: "a2av_full cfg h0 r (ring_peer ?n r j)" if "1 \<le> j" "j \<le> ?n" for j
    using ro that by (simp add: recv_ok_def)
  have bounds: "\<forall>j. 1 \<le> j \<and> j \<le> ?n \<longrightarrow>
      fst (?wr (ring_peer ?n r j)) + length (snd (?wr (ring_peer ?n r j)))
        \<le> length (block_of h0 ?rcv)"
    using ro by (simp add: recv_ok_def)
  have wl: "fst (?wr q) = nat (a2av_dst_off cfg r q) \<and> length (snd (?wr q)) = a2av_len cfg r q"
    if "a2av_full cfg h0 r q" for q
    using that by (simp add: a2av_write_def a2av_full_def)
  have disj: "\<forall>i j. 1 \<le> i \<and> i < j \<and> j \<le> ?n \<longrightarrow>
             fst (?wr (ring_peer ?n r i)) + length (snd (?wr (ring_peer ?n r i)))
                \<le> fst (?wr (ring_peer ?n r j))
             \<or> fst (?wr (ring_peer ?n r j)) + length (snd (?wr (ring_peer ?n r j)))
                \<le> fst (?wr (ring_peer ?n r i))"
  proof (intro allI impI)
    fix i j assume ij: "1 \<le> i \<and> i < j \<and> j \<le> ?n"
    have fi: "a2av_full cfg h0 r (ring_peer ?n r i)" and fj: "a2av_full cfg h0 r (ring_peer ?n r j)"
      using full ij by simp_all
    have ne: "ring_peer ?n r i \<noteq> ring_peer ?n r j" using ring_peer_inj[OF r] ij by simp
    have lt: "ring_peer ?n r i < ?n" "ring_peer ?n r j < ?n" using r by (simp_all add: ring_peer_less)
    have "nat (a2av_dst_off cfg r (ring_peer ?n r i)) + a2av_len cfg r (ring_peer ?n r i)
            \<le> nat (a2av_dst_off cfg r (ring_peer ?n r j))
          \<or> nat (a2av_dst_off cfg r (ring_peer ?n r j)) + a2av_len cfg r (ring_peer ?n r j)
            \<le> nat (a2av_dst_off cfg r (ring_peer ?n r i))"
      using dj lt ne unfolding a2av_recv_disjoint_def by blast
    then show "fst (?wr (ring_peer ?n r i)) + length (snd (?wr (ring_peer ?n r i)))
                \<le> fst (?wr (ring_peer ?n r j))
             \<or> fst (?wr (ring_peer ?n r j)) + length (snd (?wr (ring_peer ?n r j)))
                \<le> fst (?wr (ring_peer ?n r i))"
      using wl[OF fi] wl[OF fj] by simp
  qed
  obtain j where j: "1 \<le> j" "j \<le> ?n" "ring_peer ?n r j = p"
    using ring_peer_onto[OF r p] by blast
  have fl: "a2av_full cfg h0 r p" using full[OF j(1,2)] j(3) by simp
  show len: "length (a2av_sent cfg h0 p r) = a2av_len cfg r p" using fl by (simp add: a2av_full_def)
  have "segment (recv_image (block_of h0 ?rcv) ?wr ?n r ?n) (fst (?wr (ring_peer ?n r j)))
           (length (snd (?wr (ring_peer ?n r j)))) = snd (?wr (ring_peer ?n r j))"
    by (rule recv_image_segment[OF bounds disj j(1,2)])
  then show "a2av_result cfg ?t r p = a2av_sent cfg h0 p r"
    using blk j(3) len by (simp add: a2av_result_def a2av_write_def)
qed

lemma a2a_published:
  assumes G: "group_ok cfg h0 (\<lambda>r. sendbuf (a2a cfg r)) (\<lambda>r. recvbuf (a2a cfg r))"
    and r: "r < nranks cfg"
    and pb: "buffers (local_buffer (run (collAlltoallLocal_step cfg) sched (start_state h0 k0)) k0) r
               \<noteq> Null"
  shows "tmp_ok h0 (heap (run (collAlltoallLocal_step cfg) sched (start_state h0 k0)))
           (sendbuf (a2a cfg r)) (recvbuf (a2a cfg r))
           (buffers (local_buffer (run (collAlltoallLocal_step cfg) sched (start_state h0 k0)) k0) r)"
proof -
  have "a2a_rank_ok cfg h0 k0 (run (collAlltoallLocal_step cfg) sched (start_state h0 k0)) r"
    using a2a_inv_run[OF G, of k0 sched] r by (simp add: a2a_inv_def)
  then show ?thesis unfolding a2a_rank_ok_def using pb by (rule rank_inv_published)
qed

lemma a2av_published:
  assumes G: "group_ok cfg h0 (\<lambda>r. v_sendbuf (a2av cfg r)) (\<lambda>r. v_recvbuf (a2av cfg r))"
    and r: "r < nranks cfg"
    and pb: "buffers (local_buffer (run (collAlltoallvLocal_step cfg) sched (start_state h0 k0)) k0) r
               \<noteq> Null"
  shows "tmp_ok h0 (heap (run (collAlltoallvLocal_step cfg) sched (start_state h0 k0)))
           (v_sendbuf (a2av cfg r)) (v_recvbuf (a2av cfg r))
           (buffers (local_buffer (run (collAlltoallvLocal_step cfg) sched (start_state h0 k0)) k0) r)"
proof -
  have "a2av_rank_ok cfg h0 k0 (run (collAlltoallvLocal_step cfg) sched (start_state h0 k0)) r"
    using a2av_inv_run[OF G, of k0 sched] r by (simp add: a2av_inv_def)
  then show ?thesis unfolding a2av_rank_ok_def using pb by (rule rank_inv_published)
qed

section \<open>The example calls, evaluated\<close>

lemmas ex_eval =
  ex_cfg_def ex_cfg_inplace_def ex_cfg_mismatch_def ex_heap_def ex_sched_def start_state_def
  collAlltoallLocal_step_def alltoall_entry_def alltoall_store_buffer_def
  alltoall_store_ready_def alltoall_poll_def alltoall_copy_def alltoall_plan_def
  alltoall_scratch_bytes_def collAlltoallvLocal_step_def alltoallv_entry_def
  alltoallv_store_displs_def alltoallv_store_buffer_def alltoallv_poll_def alltoallv_copy_def
  alltoallv_plan_def alltoallv_scratch_bytes_def arr_read_def free_tmp_def
  collBarrierLocal_arrive_def collBarrierLocal_wait_def collUpdateBuffer_def
  recvfrom_global_rank_def int_add_def int_sub_def int_mul_def ptrdiff_mul_def int_rem_def
  int_ok_def ptrdiff_ok_def to_size_t_def index_of_def memcpy_def malloc_def free_def
  cur_slot_def empty_slot_def segment_def overwrite_def Let_def

lemma ex_alltoall_returns:
  "pc (ranks (run (collAlltoallLocal_step ex_cfg) ex_sched (start_state ex_heap 0)) 0)
     = Returned collSuccess"
  by (simp add: ex_eval)

lemma ex_alltoallv_returns:
  "pc (ranks (run (collAlltoallvLocal_step ex_cfg) ex_sched (start_state ex_heap 0)) 0)
     = Returned collSuccess"
  by (simp add: ex_eval)

lemma ex_alltoall_not_aborted:
  "pc (ranks (run (collAlltoallLocal_step ex_cfg) [0] (start_state ex_heap 0)) 0) = StoreBuffer"
  by (simp add: ex_eval)

lemma ex_alltoallv_not_aborted:
  "pc (ranks (run (collAlltoallvLocal_step ex_cfg) [0] (start_state ex_heap 0)) 0) = StoreDispls"
  by (simp add: ex_eval)

lemma ex_alltoall_events:
  "events 0 (trace (run (collAlltoallLocal_step ex_cfg) ex_sched (start_state ex_heap 0)))
     = [EvStoreBuffer (Ptr 0 0), EvStoreReady, EvFence, EvReady 2, EvCopy 2 4, EvReady 1,
        EvCopy 1 4, EvReady 0, EvCopy 0 4, EvBarrierEnter, EvBarrierLeave, EvUpdate, EvFence,
        EvReturn collSuccess]"
  by (simp add: ex_eval events_def)

lemma ex_inplace_alltoall_returns:
  "pc (ranks (run (collAlltoallLocal_step ex_cfg_inplace) ex_sched (start_state ex_heap 0)) 0)
     = Returned collSuccess"
  by (simp add: ex_eval)

lemma ex_inplace_alltoallv_returns:
  "pc (ranks (run (collAlltoallvLocal_step ex_cfg_inplace) ex_sched (start_state ex_heap 0)) 0)
     = Returned collSuccess"
  by (simp add: ex_eval)

lemma ex_comm_ok: "comm_ok ex_cfg" "comm_ok ex_cfg_inplace"
  by (simp_all add: comm_ok_def ex_cfg_def ex_cfg_inplace_def)

lemma ex_nranks: "nranks ex_cfg = 3" "nranks ex_cfg_inplace = 3"
  by (simp_all add: ex_cfg_def ex_cfg_inplace_def)

lemma ex_polling_alone:
  "pc (ranks ex_polling_alone 0) = Poll 1" "buffers (cur_slot ex_polling_alone 0) 2 = Null"
  by (simp_all add: ex_polling_alone_def ex_eval)

lemma ex_polling_published:
  "pc (ranks ex_polling_published 0) = Poll 1"
  "buffers (cur_slot ex_polling_published 0) 2 \<noteq> Null"
  "displs (cur_slot ex_polling_published 0) 2 \<noteq> None"
  by (simp_all add: ex_polling_published_def ex_eval)

lemma ex_distinct_basic: "comm_ok ex_cfg_distinct" "nranks ex_cfg_distinct = 3"
  by (simp_all add: comm_ok_def ex_cfg_def ex_cfg_distinct_def)

lemma ex_distinct_alltoall_returns:
  "pc (ranks (run (collAlltoallLocal_step ex_cfg_distinct) ex_sched (start_state ex_heap 0)) 0)
     = Returned collSuccess"
  by (simp add: ex_eval ex_cfg_distinct_def)

lemma ex_distinct_alltoallv_returns:
  "pc (ranks (run (collAlltoallvLocal_step ex_cfg_distinct) ex_sched (start_state ex_heap 0)) 0)
     = Returned collSuccess"
  by (simp add: ex_eval ex_cfg_distinct_def)

lemma ex_inplace_published:
  "buffers (local_buffer (run (collAlltoallLocal_step ex_cfg_inplace) ex_sched
                            (start_state ex_heap 0)) 0) 0 = Ptr 12 0"
  "buffers (local_buffer (run (collAlltoallvLocal_step ex_cfg_inplace) ex_sched
                            (start_state ex_heap 0)) 0) 0 = Ptr 12 0"
  by (simp_all add: ex_eval)

lemma less_3_cases: "(r::nat) < 3 \<Longrightarrow> r = 0 \<or> r = 1 \<or> r = 2"
  by linarith

lemma ex_heap_ok: "heap_ok ex_heap"
  by (simp add: heap_ok_def ex_heap_def)

lemma ex_group_ok:
  "group_ok ex_cfg ex_heap (\<lambda>r. sendbuf (a2a ex_cfg r)) (\<lambda>r. recvbuf (a2a ex_cfg r))"
  "group_ok ex_cfg ex_heap (\<lambda>r. v_sendbuf (a2av ex_cfg r)) (\<lambda>r. v_recvbuf (a2av ex_cfg r))"
  "group_ok ex_cfg_inplace ex_heap (\<lambda>r. sendbuf (a2a ex_cfg_inplace r))
     (\<lambda>r. recvbuf (a2a ex_cfg_inplace r))"
  "group_ok ex_cfg_inplace ex_heap (\<lambda>r. v_sendbuf (a2av ex_cfg_inplace r))
     (\<lambda>r. v_recvbuf (a2av ex_cfg_inplace r))"
  "group_ok ex_cfg_distinct ex_heap (\<lambda>r. sendbuf (a2a ex_cfg_distinct r))
     (\<lambda>r. recvbuf (a2a ex_cfg_distinct r))"
  "group_ok ex_cfg_distinct ex_heap (\<lambda>r. v_sendbuf (a2av ex_cfg_distinct r))
     (\<lambda>r. v_recvbuf (a2av ex_cfg_distinct r))"
  unfolding group_ok_def buffers_separate_def
  using ex_comm_ok ex_distinct_basic(1) ex_heap_ok
  by (auto simp: ex_cfg_def ex_cfg_inplace_def ex_cfg_distinct_def user_ptr_def ex_heap_def)

lemma ex_sizes_ok: "a2a_sizes_ok ex_cfg" "a2a_sizes_ok ex_cfg_inplace" "a2a_sizes_ok ex_cfg_distinct"
  by (simp_all add: a2a_sizes_ok_def ex_cfg_def ex_cfg_inplace_def ex_cfg_distinct_def)

lemma ex_recv_disjoint:
  "a2av_recv_disjoint ex_cfg 0" "a2av_recv_disjoint ex_cfg_inplace 0"
  "a2av_recv_disjoint ex_cfg_distinct 0"
  unfolding a2av_recv_disjoint_def
  by (auto simp: ex_cfg_def ex_cfg_inplace_def ex_cfg_distinct_def a2av_dst_off_def a2av_len_def
        elem_def to_size_t_def dest!: less_3_cases)

lemma ex_twins:
  "a2a_twin ex_cfg_inplace ex_heap ex_cfg_distinct ex_heap"
  "a2av_twin ex_cfg_inplace ex_heap ex_cfg_distinct ex_heap"
  unfolding a2a_twin_def a2av_twin_def
  by (auto simp: ex_cfg_def ex_cfg_inplace_def ex_cfg_distinct_def a2a_inplace_def a2av_inplace_def
        a2a_len_def a2av_len_def a2a_sent_def a2av_sent_def a2a_src_off_def a2av_src_off_def)

section \<open>The claims\<close>

subsection \<open>C9: the only result is collSuccess\<close>

lemma alltoall_run_no_error:
  assumes "pc (ranks s r) \<noteq> Returned collError"
  shows "pc (ranks (run (collAlltoallLocal_step cfg) sched s) r) \<noteq> Returned collError"
  using assms
proof (induction sched arbitrary: s)
  case Nil
  then show ?case by simp
next
  case (Cons q sched)
  have "pc (ranks (collAlltoallLocal_step cfg q s) r) \<noteq> Returned collError"
    using alltoall_step_pc[of cfg q s r] Cons.prems by auto
  then show ?case using Cons.IH by simp
qed

lemma alltoallv_run_no_error:
  assumes "pc (ranks s r) \<noteq> Returned collError"
  shows "pc (ranks (run (collAlltoallvLocal_step cfg) sched s) r) \<noteq> Returned collError"
  using assms
proof (induction sched arbitrary: s)
  case Nil
  then show ?case by simp
next
  case (Cons q sched)
  have "pc (ranks (collAlltoallvLocal_step cfg q s) r) \<noteq> Returned collError"
    using alltoallv_step_pc[of cfg q s r] Cons.prems by auto
  then show ?case using Cons.IH by simp
qed

lemma alltoall_entry_alloc_fails:
  assumes "\<not> a2a_violated cfg r" "a2a_inplace cfg r"
    and "alltoall_scratch_bytes cfg r = Some b" "avail (heap s) < b"
  shows "alltoall_entry cfg r s = fault r s"
  using assms
  by (simp add: alltoall_entry_def a2a_violated_def a2a_inplace_def malloc_fails)

lemma alltoallv_entry_alloc_fails:
  assumes "\<not> a2av_violated cfg r" "a2av_inplace cfg r"
    and "alltoallv_scratch_bytes cfg r = Some b" "avail (heap s) < b"
  shows "alltoallv_entry cfg r s = fault r s"
  using assms
  by (simp add: alltoallv_entry_def a2av_violated_def a2av_inplace_def malloc_fails)

text \<open>
  Claim C9. Whenever a rank's call to \<^verbatim>\<open>collAlltoallLocal\<close> or \<^verbatim>\<open>collAlltoallvLocal\<close>
  returns, under any schedule, the value it returns is \<open>collSuccess\<close>. A scratch
  allocation that fails in an in-place call is not checked: the null pointer goes
  straight into \<^verbatim>\<open>memcpy\<close>, the rank faults there, and it never returns a status,
  whatever the other ranks do afterwards.
\<close>

theorem success_only_result:
  assumes "r < nranks cfg" and "pc (ranks s r) = Entry"
  shows "(pc (ranks (run (collAlltoallLocal_step cfg) sched s) r) = Returned x
            \<longrightarrow> x = collSuccess)
       \<and> (pc (ranks (run (collAlltoallvLocal_step cfg) sched s) r) = Returned x
            \<longrightarrow> x = collSuccess)
       \<and> (\<not> a2a_violated cfg r \<and> a2a_inplace cfg r
            \<and> alltoall_scratch_bytes cfg r = Some b \<and> avail (heap s) < b
            \<longrightarrow> pc (ranks (run (collAlltoallLocal_step cfg) (r # sched) s) r) = Faulted)
       \<and> (\<not> a2av_violated cfg r \<and> a2av_inplace cfg r
            \<and> alltoallv_scratch_bytes cfg r = Some b \<and> avail (heap s) < b
            \<longrightarrow> pc (ranks (run (collAlltoallvLocal_step cfg) (r # sched) s) r) = Faulted)"
proof (intro conjI impI)
  assume "pc (ranks (run (collAlltoallLocal_step cfg) sched s) r) = Returned x"
  then show "x = collSuccess"
    using alltoall_run_no_error[of s r cfg sched] assms(2) by (cases x) auto
next
  assume "pc (ranks (run (collAlltoallvLocal_step cfg) sched s) r) = Returned x"
  then show "x = collSuccess"
    using alltoallv_run_no_error[of s r cfg sched] assms(2) by (cases x) auto
next
  assume a: "\<not> a2a_violated cfg r \<and> a2a_inplace cfg r
                \<and> alltoall_scratch_bytes cfg r = Some b \<and> avail (heap s) < b"
  then have "collAlltoallLocal_step cfg r s = fault r s"
    using assms alltoall_entry_alloc_fails[of cfg r b s]
    by (simp add: collAlltoallLocal_step_def)
  then have "pc (ranks (collAlltoallLocal_step cfg r s) r) = Faulted" by simp
  then have "ranks (run (collAlltoallLocal_step cfg) sched (collAlltoallLocal_step cfg r s)) r
               = ranks (collAlltoallLocal_step cfg r s) r"
    by (intro run_stopped alltoall_step_stopped) simp_all
  then show "pc (ranks (run (collAlltoallLocal_step cfg) (r # sched) s) r) = Faulted"
    using \<open>pc (ranks (collAlltoallLocal_step cfg r s) r) = Faulted\<close> by simp
next
  assume a: "\<not> a2av_violated cfg r \<and> a2av_inplace cfg r
                \<and> alltoallv_scratch_bytes cfg r = Some b \<and> avail (heap s) < b"
  then have "collAlltoallvLocal_step cfg r s = fault r s"
    using assms alltoallv_entry_alloc_fails[of cfg r b s]
    by (simp add: collAlltoallvLocal_step_def)
  then have "pc (ranks (collAlltoallvLocal_step cfg r s) r) = Faulted" by simp
  then have "ranks (run (collAlltoallvLocal_step cfg) sched (collAlltoallvLocal_step cfg r s)) r
               = ranks (collAlltoallvLocal_step cfg r s) r"
    by (intro run_stopped alltoallv_step_stopped) simp_all
  then show "pc (ranks (run (collAlltoallvLocal_step cfg) (r # sched) s) r) = Faulted"
    using \<open>pc (ranks (collAlltoallvLocal_step cfg r s) r) = Faulted\<close> by simp
qed

text \<open>The example of the spec returns \<open>collSuccess\<close> from both engines; the in-place
  example, started with 4 bytes left to allocate where its scratch buffers need 12 and
  6, faults instead of returning.\<close>

theorem success_only_result_witness:
  "pc (ranks (run (collAlltoallLocal_step ex_cfg) ex_sched (start_state ex_heap 0)) 0)
     = Returned collSuccess
   \<and> pc (ranks (run (collAlltoallvLocal_step ex_cfg) ex_sched (start_state ex_heap 0)) 0)
       = Returned collSuccess
   \<and> pc (ranks (run (collAlltoallLocal_step ex_cfg_inplace) (0 # ex_sched)
                  (start_state (ex_heap\<lparr>avail := 4\<rparr>) 0)) 0) = Faulted
   \<and> pc (ranks (run (collAlltoallvLocal_step ex_cfg_inplace) (0 # ex_sched)
                  (start_state (ex_heap\<lparr>avail := 4\<rparr>) 0)) 0) = Faulted"
proof -
  have n: "(0::nat) < nranks ex_cfg_inplace" by (simp add: ex_cfg_inplace_def ex_cfg_def)
  have e: "pc (ranks (start_state (ex_heap\<lparr>avail := 4\<rparr>) 0) 0) = Entry"
    by (simp add: start_state_def)
  have h1: "\<not> a2a_violated ex_cfg_inplace 0 \<and> a2a_inplace ex_cfg_inplace 0
            \<and> alltoall_scratch_bytes ex_cfg_inplace 0 = Some 12
            \<and> avail (heap (start_state (ex_heap\<lparr>avail := 4\<rparr>) 0)) < 12"
    by (simp add: a2a_violated_def a2a_inplace_def ex_eval)
  have h2: "\<not> a2av_violated ex_cfg_inplace 0 \<and> a2av_inplace ex_cfg_inplace 0
            \<and> alltoallv_scratch_bytes ex_cfg_inplace 0 = Some 6
            \<and> avail (heap (start_state (ex_heap\<lparr>avail := 4\<rparr>) 0)) < 6"
    by (simp add: a2av_violated_def a2av_inplace_def ex_eval)
  show ?thesis
    using success_only_result[OF n e, of ex_sched collSuccess 12]
      success_only_result[OF n e, of ex_sched collSuccess 6] h1 h2
      ex_alltoall_returns ex_alltoallv_returns
    by simp
qed

subsection \<open>C4: the assertions\<close>

lemma alltoall_run_not_aborted:
  assumes "\<not> a2a_violated cfg r" "pc (ranks s r) \<noteq> Aborted"
  shows "pc (ranks (run (collAlltoallLocal_step cfg) sched s) r) \<noteq> Aborted"
  using assms(2)
proof (induction sched arbitrary: s)
  case Nil
  then show ?case by simp
next
  case (Cons q sched)
  have "pc (ranks (collAlltoallLocal_step cfg q s) r) \<noteq> Aborted"
    using alltoall_step_pc[of cfg q s r] Cons.prems assms(1) by auto
  then show ?case using Cons.IH by simp
qed

lemma alltoallv_run_not_aborted:
  assumes "\<not> a2av_violated cfg r" "pc (ranks s r) \<noteq> Aborted"
  shows "pc (ranks (run (collAlltoallvLocal_step cfg) sched s) r) \<noteq> Aborted"
  using assms(2)
proof (induction sched arbitrary: s)
  case Nil
  then show ?case by simp
next
  case (Cons q sched)
  have "pc (ranks (collAlltoallvLocal_step cfg q s) r) \<noteq> Aborted"
    using alltoallv_step_pc[of cfg q s r] Cons.prems assms(1) by auto
  then show ?case using Cons.IH by simp
qed

lemma alltoall_run_aborted:
  assumes "r < nranks cfg" "pc (ranks s r) = Entry" "a2a_violated cfg r"
  shows "pc (ranks (run (collAlltoallLocal_step cfg) (r # sched) s) r) = Aborted"
proof -
  have st: "collAlltoallLocal_step cfg r s = abort r s"
    using assms pc_entry(1) by (simp add: collAlltoallLocal_step_def)
  then have "ranks (run (collAlltoallLocal_step cfg) sched (collAlltoallLocal_step cfg r s)) r
               = ranks (collAlltoallLocal_step cfg r s) r"
    by (intro run_stopped alltoall_step_stopped) simp_all
  then show ?thesis using st by simp
qed

lemma alltoallv_run_aborted:
  assumes "r < nranks cfg" "pc (ranks s r) = Entry" "a2av_violated cfg r"
  shows "pc (ranks (run (collAlltoallvLocal_step cfg) (r # sched) s) r) = Aborted"
proof -
  have st: "collAlltoallvLocal_step cfg r s = abort r s"
    using assms pc_v_entry(1) by (simp add: collAlltoallvLocal_step_def)
  then have "ranks (run (collAlltoallvLocal_step cfg) sched (collAlltoallvLocal_step cfg r s)) r
               = ranks (collAlltoallvLocal_step cfg r s) r"
    by (intro run_stopped alltoallv_step_stopped) simp_all
  then show ?thesis using st by simp
qed

text \<open>
  Claim C4. A rank that enters \<^verbatim>\<open>collAlltoallLocal\<close> with \<open>recvcount \<noteq> sendcount\<close> or
  \<open>sendtype \<noteq> recvtype\<close>, or \<^verbatim>\<open>collAlltoallvLocal\<close> with \<open>sendtype \<noteq> recvtype\<close>,
  aborts in its first step, before it touches the heap or the exchange slots, and stays
  aborted whatever is scheduled afterwards. A rank whose arguments satisfy the
  preconditions passes the assertions in its first step and is never aborted, under
  any schedule. (The assertions are those of a build without \<^verbatim>\<open>NDEBUG\<close>.)
\<close>

theorem precondition_enforcement:
  assumes "r < nranks cfg" and "pc (ranks s r) = Entry"
  shows "(a2a_violated cfg r \<longrightarrow>
            pc (ranks (collAlltoallLocal_step cfg r s) r) = Aborted
          \<and> heap (collAlltoallLocal_step cfg r s) = heap s
          \<and> local_buffer (collAlltoallLocal_step cfg r s) = local_buffer s
          \<and> (\<forall>sched. pc (ranks (run (collAlltoallLocal_step cfg) (r # sched) s) r) = Aborted))
       \<and> (a2av_violated cfg r \<longrightarrow>
            pc (ranks (collAlltoallvLocal_step cfg r s) r) = Aborted
          \<and> heap (collAlltoallvLocal_step cfg r s) = heap s
          \<and> local_buffer (collAlltoallvLocal_step cfg r s) = local_buffer s
          \<and> (\<forall>sched. pc (ranks (run (collAlltoallvLocal_step cfg) (r # sched) s) r) = Aborted))
       \<and> (\<not> a2a_violated cfg r \<longrightarrow>
            pc (ranks (collAlltoallLocal_step cfg r s) r) \<in> {StoreBuffer, Faulted}
          \<and> (\<forall>sched. pc (ranks (run (collAlltoallLocal_step cfg) sched s) r) \<noteq> Aborted))
       \<and> (\<not> a2av_violated cfg r \<longrightarrow>
            pc (ranks (collAlltoallvLocal_step cfg r s) r) \<in> {StoreDispls, Faulted}
          \<and> (\<forall>sched. pc (ranks (run (collAlltoallvLocal_step cfg) sched s) r) \<noteq> Aborted))"
proof (intro conjI impI allI)
  assume v: "a2a_violated cfg r"
  then have st: "collAlltoallLocal_step cfg r s = abort r s"
    using assms pc_entry(1) by (simp add: collAlltoallLocal_step_def)
  show "pc (ranks (collAlltoallLocal_step cfg r s) r) = Aborted"
    "heap (collAlltoallLocal_step cfg r s) = heap s"
    "local_buffer (collAlltoallLocal_step cfg r s) = local_buffer s"
    by (simp_all add: st)
  show "pc (ranks (run (collAlltoallLocal_step cfg) (r # sched) s) r) = Aborted" for sched
    using alltoall_run_aborted[OF assms v] .
next
  assume v: "a2av_violated cfg r"
  then have st: "collAlltoallvLocal_step cfg r s = abort r s"
    using assms pc_v_entry(1) by (simp add: collAlltoallvLocal_step_def)
  show "pc (ranks (collAlltoallvLocal_step cfg r s) r) = Aborted"
    "heap (collAlltoallvLocal_step cfg r s) = heap s"
    "local_buffer (collAlltoallvLocal_step cfg r s) = local_buffer s"
    by (simp_all add: st)
  show "pc (ranks (run (collAlltoallvLocal_step cfg) (r # sched) s) r) = Aborted" for sched
    using alltoallv_run_aborted[OF assms v] .
next
  assume v: "\<not> a2a_violated cfg r"
  show "pc (ranks (collAlltoallLocal_step cfg r s) r) \<in> {StoreBuffer, Faulted}"
    using assms v
    by (simp add: collAlltoallLocal_step_def alltoall_entry_def a2a_violated_def Let_def
          split: option.splits prod.splits)
  show "pc (ranks (run (collAlltoallLocal_step cfg) sched s) r) \<noteq> Aborted" for sched
    using alltoall_run_not_aborted[OF v, of s sched] assms by simp
next
  assume v: "\<not> a2av_violated cfg r"
  show "pc (ranks (collAlltoallvLocal_step cfg r s) r) \<in> {StoreDispls, Faulted}"
    using assms v
    by (simp add: collAlltoallvLocal_step_def alltoallv_entry_def a2av_violated_def Let_def
          split: option.splits prod.splits)
  show "pc (ranks (run (collAlltoallvLocal_step cfg) sched s) r) \<noteq> Aborted" for sched
    using alltoallv_run_not_aborted[OF v, of s sched] assms by simp
qed

text \<open>Rank 0 of the mismatched example aborts in both engines and is still aborted at
  the end of the schedule; rank 0 of the example of the spec passes the assertions and
  is not aborted at the end.\<close>

theorem precondition_enforcement_witness:
  "pc (ranks (run (collAlltoallLocal_step ex_cfg_mismatch) (0 # ex_sched)
               (start_state ex_heap 0)) 0) = Aborted
   \<and> pc (ranks (run (collAlltoallvLocal_step ex_cfg_mismatch) (0 # ex_sched)
                  (start_state ex_heap 0)) 0) = Aborted
   \<and> pc (ranks (collAlltoallLocal_step ex_cfg 0 (start_state ex_heap 0)) 0) = StoreBuffer
   \<and> pc (ranks (collAlltoallvLocal_step ex_cfg 0 (start_state ex_heap 0)) 0) = StoreDispls
   \<and> pc (ranks (run (collAlltoallLocal_step ex_cfg) ex_sched (start_state ex_heap 0)) 0)
       \<noteq> Aborted
   \<and> pc (ranks (run (collAlltoallvLocal_step ex_cfg) ex_sched (start_state ex_heap 0)) 0)
       \<noteq> Aborted"
proof -
  have n: "(0::nat) < nranks ex_cfg_mismatch" "(0::nat) < nranks ex_cfg"
    by (simp_all add: ex_cfg_mismatch_def ex_cfg_def)
  have e: "pc (ranks (start_state ex_heap 0) 0) = Entry"
    by (simp add: start_state_def)
  have bad: "a2a_violated ex_cfg_mismatch 0" "a2av_violated ex_cfg_mismatch 0"
    by (simp_all add: a2a_violated_def a2av_violated_def ex_cfg_mismatch_def ex_cfg_def)
  have good: "\<not> a2a_violated ex_cfg 0" "\<not> a2av_violated ex_cfg 0"
    by (simp_all add: a2a_violated_def a2av_violated_def ex_cfg_def)
  show ?thesis
    using precondition_enforcement[OF n(1) e] precondition_enforcement[OF n(2) e] bad good
      ex_alltoall_not_aborted ex_alltoallv_not_aborted
    by simp
qed

subsection \<open>C7: the fence of the publication\<close>

text \<open>
  Claim C7 as stated: in \<^verbatim>\<open>collAlltoallLocal\<close> the stores of the published pointer and of
  the ready flag are preceded by and followed by a full memory fence. In the example of
  the spec rank 0 completes its call, and the first thing it does is the store of the
  pointer: no fence precedes the stores.
\<close>

theorem publication_fence_counterexample:
  "pc (ranks (run (collAlltoallLocal_step ex_cfg) ex_sched (start_state ex_heap 0)) 0)
     = Returned collSuccess
   \<and> \<not> (fence_before_store
            (events 0 (trace (run (collAlltoallLocal_step ex_cfg) ex_sched
                                (start_state ex_heap 0))))
        \<and> stores_then_fence
            (events 0 (trace (run (collAlltoallLocal_step ex_cfg) ex_sched
                                (start_state ex_heap 0)))))"
  by (simp add: ex_alltoall_returns ex_alltoall_events fence_before_store_def)

text \<open>
  Claim C7 as amended. In every run of \<^verbatim>\<open>collAlltoallLocal\<close> no rank issues a fence
  before its first store into the exchange slot, and in a completed call the store of
  the pointer is directly followed by the store of the ready flag and then by a fence
  (lines 53 to 55): the publication is fenced after the two stores only.
\<close>

theorem publication_fence_amended:
  assumes "comm_ok cfg" and "r < nranks cfg"
    and "s = run (collAlltoallLocal_step cfg) sched (start_state h k)"
  shows "\<not> fence_before_store (events r (trace s))
       \<and> (pc (ranks s r) = Returned collSuccess \<longrightarrow> stores_then_fence (events r (trace s)))"
proof -
  have tr: "a2a_rank_trace cfg s r" using a2a_trace_run[OF assms(1,2)] assms(3) by simp
  have 1: "\<not> fence_before_store (events r (trace s))"
  proof (cases "pc (ranks s r) = Aborted")
    case True
    then show ?thesis using tr
      by (simp add: a2a_rank_trace_def a2a_trace_ok_def fence_before_store_def)
  next
    case na: False
    show ?thesis
    proof (cases "pc (ranks s r) = Faulted")
      case True
      then obtain p0 tmp0 h0 where "a2a_history cfg r tmp0 p0 = Some h0"
        "events r (trace s) = h0 @ [EvFault]"
        using tr by (auto simp: a2a_rank_trace_def a2a_trace_ok_def)
      then show ?thesis using no_fence_before_store_a2a[of cfg r tmp0 p0 h0 "[EvFault]"] by simp
    next
      case False
      then have "a2a_history cfg r (sendbuf_tmp (ranks s r)) (pc (ranks s r))
                   = Some (events r (trace s))"
        using tr na by (simp add: a2a_rank_trace_def a2a_trace_ok_def)
      then show ?thesis using no_fence_before_store_a2a[of cfg r _ _ _ "[]"] by fastforce
    qed
  qed
  have 2: "stores_then_fence (events r (trace s))" if "pc (ranks s r) = Returned collSuccess"
  proof -
    have "a2a_history cfg r (sendbuf_tmp (ranks s r)) (pc (ranks s r))
            = Some (events r (trace s))"
      using tr that by (simp add: a2a_rank_trace_def a2a_trace_ok_def)
    then show ?thesis using stores_then_fence_a2a that by fastforce
  qed
  show ?thesis using 1 2 by blast
qed

text \<open>Rank 0 of the example of the spec.\<close>

theorem publication_fence_amended_witness:
  "\<not> fence_before_store
        (events 0 (trace (run (collAlltoallLocal_step ex_cfg) ex_sched (start_state ex_heap 0))))
   \<and> stores_then_fence
        (events 0 (trace (run (collAlltoallLocal_step ex_cfg) ex_sched (start_state ex_heap 0))))"
proof -
  have c: "comm_ok ex_cfg" by (simp add: comm_ok_def ex_cfg_def)
  have n: "(0::nat) < nranks ex_cfg" by (simp add: ex_cfg_def)
  show ?thesis
    using publication_fence_amended[OF c n refl, of ex_sched ex_heap 0] ex_alltoall_returns
    by simp
qed

subsection \<open>C5: what follows the last copy\<close>



subsection \<open>C6: readiness in the ragged engine\<close>

text \<open>
  Claim C6. In every run of \<^verbatim>\<open>collAlltoallvLocal\<close> each copy from a peer directly follows
  an evaluation of the spin condition that found that peer ready. Inside the loop, the
  step of a polling rank is decided by the two published pointers alone: the rank moves
  on to the copy when the peer's buffer pointer and the peer's displacement table are
  both non-null, and spins otherwise. The engine has no ready flag: no run ever sets
  one in any slot of the pool.
\<close>

theorem ragged_readiness:
  assumes "comm_ok cfg" and "r < nranks cfg"
    and "s = run (collAlltoallvLocal_step cfg) sched (start_state h k)"
  shows "copies_checked None (events r (trace s))
       \<and> no_ready s
       \<and> (\<forall>t i p. pc (ranks t r) = Poll i \<and> 1 \<le> i \<and> i \<le> int (nranks cfg)
                  \<and> int (nranks cfg) < 2 ^ 31 - 1
                  \<and> recvfrom_global_rank (comm cfg r) i = Some p \<longrightarrow>
            collAlltoallvLocal_step cfg r t =
              (if buffers (cur_slot t r) p \<noteq> Null \<and> displs (cur_slot t r) p \<noteq> None
               then emit r (EvReady p) (goto r (Copy i) t) else emit r (EvSpin p) t))"
proof (intro conjI allI impI)
  have t: "a2av_rank_trace cfg s r" using a2av_trace_run[OF assms(1,2)] assms(3) by simp
  show "copies_checked None (events r (trace s))" using a2av_copies_checked[OF t] .
  show "no_ready s" using no_ready_run[OF no_ready_start] assms(3) by simp
next
  fix t :: state and i p
  assume a: "pc (ranks t r) = Poll i \<and> 1 \<le> i \<and> i \<le> int (nranks cfg)
               \<and> int (nranks cfg) < 2 ^ 31 - 1
               \<and> recvfrom_global_rank (comm cfg r) i = Some p"
  then show "collAlltoallvLocal_step cfg r t =
              (if buffers (cur_slot t r) p \<noteq> Null \<and> displs (cur_slot t r) p \<noteq> None
               then emit r (EvReady p) (goto r (Copy i) t) else emit r (EvSpin p) t)"
    using alltoallv_poll_exact[OF assms(1,2), of i p t] assms(2)
    by (simp add: collAlltoallvLocal_step_def)
qed

text \<open>Rank 0 of the example of the spec polls rank 2 first. Scheduled alone it spins;
  once rank 2 has stored its table and its pointer, the same step moves on to the
  copy.\<close>

theorem ragged_readiness_witness:
  "copies_checked None
     (events 0 (trace (run (collAlltoallvLocal_step ex_cfg) ex_sched (start_state ex_heap 0))))
   \<and> no_ready (run (collAlltoallvLocal_step ex_cfg) ex_sched (start_state ex_heap 0))
   \<and> collAlltoallvLocal_step ex_cfg 0 ex_polling_alone = emit 0 (EvSpin 2) ex_polling_alone
   \<and> collAlltoallvLocal_step ex_cfg 0 ex_polling_published
       = emit 0 (EvReady 2) (goto 0 (Copy 1) ex_polling_published)"
proof -
  have n: "(0::nat) < nranks ex_cfg" by (simp add: ex_nranks)
  note a = ragged_readiness[OF ex_comm_ok(1) n refl, of ex_sched ex_heap 0]
  have p: "recvfrom_global_rank (comm ex_cfg 0) 1 = Some 2"
    by (simp add: ex_eval)
  have s1: "collAlltoallvLocal_step ex_cfg 0 ex_polling_alone
              = emit 0 (EvSpin 2) ex_polling_alone"
    using a[THEN conjunct2, THEN conjunct2, rule_format, of ex_polling_alone 1 2]
      p ex_polling_alone
    by (simp add: ex_nranks)
  have s2: "collAlltoallvLocal_step ex_cfg 0 ex_polling_published
              = emit 0 (EvReady 2) (goto 0 (Copy 1) ex_polling_published)"
    using a[THEN conjunct2, THEN conjunct2, rule_format, of ex_polling_published 1 2]
      p ex_polling_published
    by (simp add: ex_nranks)
  show ?thesis using a s1 s2 by blast
qed

subsection \<open>C8: the size of the scratch buffer of the ragged engine\<close>

text \<open>
  Claim C8. When \<^verbatim>\<open>collAlltoallvLocal\<close> is entered with \<open>sendbuf = recvbuf\<close> and the entry
  does not abort or fault, the size of the scratch buffer is
  \<open>sendtype_extent * (sdispls[size - 1] + sendcounts[size - 1])\<close> bytes (both table
  entries exist, and the sum and the product fit an \<^verbatim>\<open>int\<close>): a block of exactly that
  size is allocated, it receives that many bytes from the start of the aliased buffer,
  and it becomes the rank's published send buffer.
\<close>

theorem ragged_scratch_sizing:
  assumes "r < nranks cfg" and "pc (ranks s r) = Entry" and "a2av_inplace cfg r"
    and "user_ptr (heap s) (v_recvbuf (a2av cfg r))"
    and "s' = collAlltoallvLocal_step cfg r s" and "running (pc (ranks s' r))"
  shows "alltoallv_scratch_bytes cfg r = Some (a2av_bytes cfg r)
       \<and> arr_read (v_sdispls (a2av cfg r)) (global_comm_size (comm cfg r) - 1) \<noteq> None
       \<and> arr_read (v_sendcounts (a2av cfg r)) (global_comm_size (comm cfg r) - 1) \<noteq> None
       \<and> sendbuf_tmp (ranks s' r) = Ptr (fresh (heap s)) 0
       \<and> blocks (heap s') (fresh (heap s))
           = Some (segment (block_of (heap s) (v_recvbuf (a2av cfg r)))
                     (nat (off_of (v_recvbuf (a2av cfg r)))) (a2av_bytes cfg r))
       \<and> length (segment (block_of (heap s) (v_recvbuf (a2av cfg r)))
                   (nat (off_of (v_recvbuf (a2av cfg r)))) (a2av_bytes cfg r))
           = a2av_bytes cfg r
       \<and> trace s' = trace s @ [(r, EvMalloc (a2av_bytes cfg r))]
       \<and> pc (ranks s' r) = StoreDispls"
proof -
  have st: "s' = alltoallv_entry cfg r s"
    using assms(1,2,5) by (simp add: collAlltoallvLocal_step_def)
  have nv: "\<not> a2av_violated cfg r"
    using assms(6) st pc_v_entry(1)[of cfg r s] by auto
  show ?thesis
  proof (cases "alltoallv_scratch_bytes cfg r")
    case None
    then show ?thesis using assms(3,6) nv
      by (simp add: st alltoallv_entry_def a2av_inplace_def a2av_violated_def)
  next
    case (Some n)
    note sb = alltoallv_scratch_bytes_SomeD[OF Some]
    obtain tmp h1 where m: "malloc (heap s) n = (tmp, h1)" by (cases "malloc (heap s) n") auto
    show ?thesis
    proof (cases "memcpy h1 tmp (v_recvbuf (a2av cfg r)) n")
      case None
      then show ?thesis using assms(3,6) nv Some m
        by (simp add: st alltoallv_entry_def a2av_inplace_def a2av_violated_def)
    next
      case c: (Some h2)
      have s': "s' = emit r (EvMalloc n) (goto r StoreDispls
                  (set_rank r (\<lambda>t. t\<lparr>sendbuf_tmp := tmp\<rparr>) (s\<lparr>heap := h2\<rparr>)))"
        using assms(3) nv Some m c
        by (simp add: st alltoallv_entry_def a2av_inplace_def a2av_violated_def)
      have t: "tmp = Ptr (fresh (heap s)) 0" using heap_step_inplace(3)[OF m c] .
      show ?thesis
        using inplace_copy_result(1,2)[OF m c assms(4)] Some sb t
        by (simp add: s')
    qed
  qed
qed

text \<open>Rank 0 of the in-place example: its tables end with displacement 4 and count 2,
  the extent is 1, so 6 bytes are allocated (block 12) and copied from block 6.\<close>

theorem ragged_scratch_sizing_witness:
  "a2av_bytes ex_cfg_inplace 0 = 6
   \<and> sendbuf_tmp (ranks (collAlltoallvLocal_step ex_cfg_inplace 0 (start_state ex_heap 0)) 0)
       = Ptr 12 0
   \<and> blocks (heap (collAlltoallvLocal_step ex_cfg_inplace 0 (start_state ex_heap 0))) 12
       = Some [1, 2, 2, 3, 3, 3]
   \<and> trace (collAlltoallvLocal_step ex_cfg_inplace 0 (start_state ex_heap 0))
       = [(0, EvMalloc 6)]"
proof -
  have n: "(0::nat) < nranks ex_cfg_inplace" by (simp add: ex_nranks)
  have e: "pc (ranks (start_state ex_heap 0) 0) = Entry" by (simp add: start_state_def)
  have i: "a2av_inplace ex_cfg_inplace 0"
    by (simp add: a2av_inplace_def ex_cfg_inplace_def ex_cfg_def)
  have u: "user_ptr (heap (start_state ex_heap 0)) (v_recvbuf (a2av ex_cfg_inplace 0))"
    by (simp add: user_ptr_def start_state_def ex_cfg_inplace_def ex_cfg_def ex_heap_def)
  have r: "running (pc (ranks (collAlltoallvLocal_step ex_cfg_inplace 0
                                 (start_state ex_heap 0)) 0))"
    by (simp add: ex_eval)
  have b: "a2av_bytes ex_cfg_inplace 0 = 6"
    by (simp add: a2av_bytes_def elem_def ex_cfg_inplace_def ex_cfg_def to_size_t_def)
  have d: "segment (block_of (heap (start_state ex_heap 0)) (v_recvbuf (a2av ex_cfg_inplace 0)))
             (nat (off_of (v_recvbuf (a2av ex_cfg_inplace 0)))) 6 = [1, 2, 2, 3, 3, 3]"
    "fresh (heap (start_state ex_heap 0)) = 12" "trace (start_state ex_heap 0) = []"
    by (simp_all add: block_of_def segment_def start_state_def ex_cfg_inplace_def ex_cfg_def
          ex_heap_def)
  show ?thesis
    using ragged_scratch_sizing[OF n e i u refl r] b d by simp
qed

subsection \<open>C10: the send buffer is not written\<close>

text \<open>
  Claim C10. Take a rank whose send buffer lies in a block that existed when the call
  started and that is not the receive block of any rank of the group. Then at every
  point of every run of either engine that block holds what it held at the start: the
  engines write into receive blocks and into blocks they allocated themselves, and
  nowhere else.
\<close>

theorem send_buffer_preserved:
  assumes "r < nranks cfg"
    and "blk_of (sendbuf (a2a cfg r)) = Some b" and "blk_of (v_sendbuf (a2av cfg r)) = Some b'"
    and "b < fresh h0" and "b' < fresh h0"
    and "\<forall>p<nranks cfg. blk_of (recvbuf (a2a cfg p)) \<noteq> Some b"
    and "\<forall>p<nranks cfg. blk_of (v_recvbuf (a2av cfg p)) \<noteq> Some b'"
  shows "block_of (heap (run (collAlltoallLocal_step cfg) sched (start_state h0 k)))
             (sendbuf (a2a cfg r))
           = block_of h0 (sendbuf (a2a cfg r))
       \<and> block_of (heap (run (collAlltoallvLocal_step cfg) sched' (start_state h0 k)))
             (v_sendbuf (a2av cfg r))
           = block_of h0 (v_sendbuf (a2av cfg r))"
proof -
  have 1: "blocks (heap (run (collAlltoallLocal_step cfg) sched (start_state h0 k))) b
             = blocks h0 b"
    using frame_inv_alltoall_run[of h0 cfg sched k] assms(4,6) by (simp add: frame_inv_def)
  have 2: "blocks (heap (run (collAlltoallvLocal_step cfg) sched' (start_state h0 k))) b'
             = blocks h0 b'"
    using frame_inv_alltoallv_run[of h0 cfg sched' k] assms(5,7) by (simp add: frame_inv_def)
  show ?thesis
    using 1 2 assms(2,3)
    by (cases "sendbuf (a2a cfg r)"; cases "v_sendbuf (a2av cfg r)") (simp_all add: block_of_def)
qed

text \<open>The send buffers of rank 0 in the example of the spec, blocks 0 and 6.\<close>

theorem send_buffer_preserved_witness:
  "block_of (heap (run (collAlltoallLocal_step ex_cfg) ex_sched (start_state ex_heap 0)))
       (Ptr 0 0)
     = [10, 0, 0, 0, 20, 0, 0, 0, 30, 0, 0, 0]
   \<and> block_of (heap (run (collAlltoallvLocal_step ex_cfg) ex_sched (start_state ex_heap 0)))
         (Ptr 6 0)
       = [1, 2, 2, 3, 3, 3]"
proof -
  have n: "(0::nat) < nranks ex_cfg" by (simp add: ex_nranks)
  have s: "blk_of (sendbuf (a2a ex_cfg 0)) = Some 0" "blk_of (v_sendbuf (a2av ex_cfg 0)) = Some 6"
    "sendbuf (a2a ex_cfg 0) = Ptr 0 0" "v_sendbuf (a2av ex_cfg 0) = Ptr 6 0"
    by (simp_all add: ex_cfg_def)
  have f: "(0::nat) < fresh ex_heap" "(6::nat) < fresh ex_heap" by (simp_all add: ex_heap_def)
  have r: "\<forall>p<nranks ex_cfg. blk_of (recvbuf (a2a ex_cfg p)) \<noteq> Some 0"
    "\<forall>p<nranks ex_cfg. blk_of (v_recvbuf (a2av ex_cfg p)) \<noteq> Some 6"
    by (simp_all add: ex_cfg_def)
  have d: "block_of ex_heap (Ptr 0 0) = [10, 0, 0, 0, 20, 0, 0, 0, 30, 0, 0, 0]"
    "block_of ex_heap (Ptr 6 0) = [1, 2, 2, 3, 3, 3]"
    by (simp_all add: block_of_def ex_heap_def)
  show ?thesis
    using send_buffer_preserved[OF n s(1,2) f r, of ex_sched 0 ex_sched] s(3,4) d by simp
qed

subsection \<open>C1: the transpose\<close>



subsection \<open>C2: the ragged transpose\<close>



subsection \<open>C3: a call in place\<close>



end
